theory Spec2Isabelle
  imports Main "HOL-Library.Word" "HOL-Library.Product_Lexorder"
begin

unbundle bit_operations_syntax

section \<open>Python values used by the engine\<close>

text \<open>
  A Python \<open>str\<close> is a sequence of code points. The embedding uses \<^typ>\<open>string\<close>, whose
  characters are the code points U+0000 to U+00FF: \<open>length\<close> counts code points, as
  Python's \<open>len\<close> does. The character classes below are Python's on that range.
\<close>

datatype error = IndexError | EOFError | ValueError

definition cp :: "char \<Rightarrow> nat" where
  "cp c = of_char c"

text \<open>\<open>str.isdigit\<close>: the decimal digits and the superscripts U+00B2, U+00B3, U+00B9.\<close>

definition isdigit :: "char \<Rightarrow> bool" where
  "isdigit c = ((48 \<le> cp c \<and> cp c \<le> 57) \<or> cp c = 178 \<or> cp c = 179 \<or> cp c = 185)"

text \<open>The regular-expression class \<open>\d\<close> (Unicode category Nd): the decimal digits only.\<close>

definition re_digit :: "char \<Rightarrow> bool" where
  "re_digit c = (48 \<le> cp c \<and> cp c \<le> 57)"

text \<open>\<open>str.isspace\<close>.\<close>

definition isspace :: "char \<Rightarrow> bool" where
  "isspace c = ((9 \<le> cp c \<and> cp c \<le> 13) \<or> (28 \<le> cp c \<and> cp c \<le> 32) \<or> cp c = 133 \<or> cp c = 160)"

text \<open>\<open>str(n)\<close> for a non-negative integer: its decimal rendering.\<close>

function str_nat :: "nat \<Rightarrow> string" where
  "str_nat n = (if n < 10 then [char_of (48 + n)] else str_nat (n div 10) @ [char_of (48 + n mod 10)])"
  by pat_completeness auto
termination
  by (relation "measure id") auto

declare str_nat.simps [simp del]

text \<open>\<open>s.encode("utf-8")\<close>: one byte below U+0080, two bytes from there to U+00FF.\<close>

definition encode_utf8 :: "string \<Rightarrow> nat list" where
  "encode_utf8 s = concat (map (\<lambda>c. if cp c < 128 then [cp c] else [192 + cp c div 64, 128 + cp c mod 64]) s)"

section \<open>HMAC-SHA256 (Python's \<open>hmac\<close> and \<open>hashlib\<close>)\<close>

text \<open>
  The digest the engine calls, written out after FIPS 180-4 and FIPS 198-1. Bytes and
  32-bit words are natural numbers; every 32-bit addition is reduced modulo \<open>2 ^ 32\<close>.
\<close>

definition add32 :: "nat \<Rightarrow> nat \<Rightarrow> nat" where
  "add32 a b = (a + b) mod 4294967296"

definition rotr :: "nat \<Rightarrow> nat \<Rightarrow> nat" where
  "rotr n x = x div 2 ^ n + (x mod 2 ^ n) * 2 ^ (32 - n)"

definition Ch :: "nat \<Rightarrow> nat \<Rightarrow> nat \<Rightarrow> nat" where
  "Ch x y z = (x AND y) XOR ((4294967295 - x) AND z)"

definition Maj :: "nat \<Rightarrow> nat \<Rightarrow> nat \<Rightarrow> nat" where
  "Maj x y z = (x AND y) XOR (x AND z) XOR (y AND z)"

definition bsig0 :: "nat \<Rightarrow> nat" where
  "bsig0 x = rotr 2 x XOR rotr 13 x XOR rotr 22 x"

definition bsig1 :: "nat \<Rightarrow> nat" where
  "bsig1 x = rotr 6 x XOR rotr 11 x XOR rotr 25 x"

definition ssig0 :: "nat \<Rightarrow> nat" where
  "ssig0 x = rotr 7 x XOR rotr 18 x XOR x div 2 ^ 3"

definition ssig1 :: "nat \<Rightarrow> nat" where
  "ssig1 x = rotr 17 x XOR rotr 19 x XOR x div 2 ^ 10"

definition sha_K :: "nat list" where
  "sha_K = [
   1116352408, 1899447441, 3049323471, 3921009573, 961987163, 1508970993, 2453635748, 2870763221,
   3624381080, 310598401, 607225278, 1426881987, 1925078388, 2162078206, 2614888103, 3248222580,
   3835390401, 4022224774, 264347078, 604807628, 770255983, 1249150122, 1555081692, 1996064986,
   2554220882, 2821834349, 2952996808, 3210313671, 3336571891, 3584528711, 113926993, 338241895,
   666307205, 773529912, 1294757372, 1396182291, 1695183700, 1986661051, 2177026350, 2456956037,
   2730485921, 2820302411, 3259730800, 3345764771, 3516065817, 3600352804, 4094571909, 275423344,
   430227734, 506948616, 659060556, 883997877, 958139571, 1322822218, 1537002063, 1747873779,
   1955562222, 2024104815, 2227730452, 2361852424, 2428436474, 2756734187, 3204031479, 3329325298]"

type_synonym sha_state = "nat \<times> nat \<times> nat \<times> nat \<times> nat \<times> nat \<times> nat \<times> nat"

definition sha_H0 :: sha_state where
  "sha_H0 = (1779033703, 3144134277, 1013904242, 2773480762,
             1359893119, 2600822924, 528734635, 1541459225)"

fun be_words :: "nat list \<Rightarrow> nat list" where
  "be_words (a # b # c # d # r) = (((a * 256 + b) * 256 + c) * 256 + d) # be_words r"
| "be_words _ = []"

definition be_bytes :: "nat \<Rightarrow> nat list" where
  "be_bytes w = [w div 16777216 mod 256, w div 65536 mod 256, w div 256 mod 256, w mod 256]"

definition len_bytes :: "nat \<Rightarrow> nat list" where
  "len_bytes n = be_bytes (n div 4294967296 mod 4294967296) @ be_bytes (n mod 4294967296)"

definition sha_pad :: "nat list \<Rightarrow> nat list" where
  "sha_pad m = m @ [128] @ replicate ((119 - length m mod 64) mod 64) 0 @ len_bytes (8 * length m)"

fun mix :: "nat \<Rightarrow> nat \<Rightarrow> sha_state \<Rightarrow> sha_state" where
  "mix t1 t2 (a, b, c, d, e, f, g, h) = (add32 t1 t2, a, b, c, add32 d t1, e, f, g)"

fun sha_round :: "sha_state \<Rightarrow> nat \<times> nat \<Rightarrow> sha_state" where
  "sha_round (a, b, c, d, e, f, g, h) (k, w) =
     mix (add32 (add32 (add32 (add32 h (bsig1 e)) (Ch e f g)) k) w) (add32 (bsig0 a) (Maj a b c))
       (a, b, c, d, e, f, g, h)"

text \<open>
  The 64 rounds of one block. \<open>ws\<close> is the window of the next sixteen schedule words;
  each round consumes its head and appends the word sixteen places further on.
\<close>

fun rounds :: "nat list \<Rightarrow> nat list \<Rightarrow> sha_state \<Rightarrow> sha_state" where
  "rounds [] ws s = s"
| "rounds (k # ks) ws s =
     rounds ks (tl ws @ [add32 (add32 (add32 (ssig1 (ws ! 14)) (ws ! 9)) (ssig0 (ws ! 1))) (ws ! 0)])
       (sha_round s (k, ws ! 0))"

fun add_state :: "sha_state \<Rightarrow> sha_state \<Rightarrow> sha_state" where
  "add_state (a, b, c, d, e, f, g, h) (a', b', c', d', e', f', g', h') =
     (add32 a a', add32 b b', add32 c c', add32 d d', add32 e e', add32 f f', add32 g g', add32 h h')"

definition compress :: "sha_state \<Rightarrow> nat list \<Rightarrow> sha_state" where
  "compress h blk = add_state h (rounds sha_K (be_words blk) h)"

fun state_bytes :: "sha_state \<Rightarrow> nat list" where
  "state_bytes (a, b, c, d, e, f, g, h) =
     be_bytes a @ be_bytes b @ be_bytes c @ be_bytes d @ be_bytes e @ be_bytes f @ be_bytes g @ be_bytes h"

function chunks64 :: "nat list \<Rightarrow> nat list list" where
  "chunks64 bs = (if length bs < 64 then [] else take 64 bs # chunks64 (drop 64 bs))"
  by pat_completeness auto
termination
  by (relation "measure length") auto

declare chunks64.simps [simp del]

definition sha256 :: "nat list \<Rightarrow> nat list" where
  "sha256 m = state_bytes (foldl compress sha_H0 (chunks64 (sha_pad m)))"

definition hmac_key :: "nat list \<Rightarrow> nat list" where
  "hmac_key key = (if length key > 64 then sha256 key else key) @
     replicate (64 - length (if length key > 64 then sha256 key else key)) 0"

definition hmac_sha256 :: "nat list \<Rightarrow> nat list \<Rightarrow> nat list" where
  "hmac_sha256 key msg =
     sha256 (map (\<lambda>b. b XOR 0x5c) (hmac_key key) @ sha256 (map (\<lambda>b. b XOR 0x36) (hmac_key key) @ msg))"

section \<open>The pseudonymization engine (\<open>FF Parser/data_obfuscator.py\<close>)\<close>

text \<open>\<open>os.getenv(name, default)\<close> over the process environment.\<close>

definition getenv :: "(string \<rightharpoonup> string) \<Rightarrow> string \<Rightarrow> string \<Rightarrow> string" where
  "getenv env name dflt = (case env name of None \<Rightarrow> dflt | Some v \<Rightarrow> v)"

text \<open>\<open>PSEUDO_KEY = os.getenv("SHIELD_PSEUDO_KEY", "CHANGE-ME-IN-ENV")\<close>, read at import.\<close>

definition PSEUDO_KEY :: "(string \<rightharpoonup> string) \<Rightarrow> string" where
  "PSEUDO_KEY env = getenv env ''SHIELD_PSEUDO_KEY'' ''CHANGE-ME-IN-ENV''"

text \<open>
  The loop of \<open>_pseudo_digit_stream\<close>: while \<open>len(out) < n\<close>, append the 32 bytes of
  \<open>HMAC(key, f"{seed}|{i}")\<close>, each modulo 10, and increment \<open>i\<close>.
\<close>

function pseudo_digit_loop :: "nat list \<Rightarrow> string \<Rightarrow> nat \<Rightarrow> nat list \<Rightarrow> nat \<Rightarrow> nat list" where
  "pseudo_digit_loop key seed n out i =
     (if length out < n
      then pseudo_digit_loop key seed n
             (out @ map (\<lambda>b. b mod 10) (hmac_sha256 key (encode_utf8 (seed @ ''|'' @ str_nat i)))) (i + 1)
      else out)"
  by pat_completeness auto
termination
proof (relation "measure (\<lambda>(key, seed, n, out, i). n - length out)")
  show "wf (measure (\<lambda>(key, seed, n, out, i). n - length out))"
    by simp
next
  fix key :: "nat list" and seed :: string and n :: nat and out :: "nat list" and i :: nat
  assume less: "length out < n"
  have "length (state_bytes s) = 32" for s
    by (cases s rule: state_bytes.cases) (simp add: be_bytes_def)
  then have "length (hmac_sha256 key (encode_utf8 (seed @ ''|'' @ str_nat i))) = 32"
    unfolding hmac_sha256_def sha256_def by blast
  with less show "((key, seed, n,
      out @ map (\<lambda>b. b mod 10) (hmac_sha256 key (encode_utf8 (seed @ ''|'' @ str_nat i))), i + 1),
      (key, seed, n, out, i)) \<in> measure (\<lambda>(key, seed, n, out, i). n - length out)"
    by simp
qed

declare pseudo_digit_loop.simps [simp del]

definition pseudo_digit_stream :: "nat list \<Rightarrow> string \<Rightarrow> nat \<Rightarrow> nat list" where
  "pseudo_digit_stream key seed n = take n (pseudo_digit_loop key seed n [] 0)"

text \<open>
  The reinsertion loop: at a character with \<open>isdigit\<close> the next new digit is read
  (\<open>new_digits[idx]\<close> raises IndexError past the end), any other character is copied.
\<close>

fun reinsert :: "string \<Rightarrow> string \<Rightarrow> nat \<Rightarrow> string \<Rightarrow> error + string" where
  "reinsert [] new_digits idx result = Inr result"
| "reinsert (ch # s) new_digits idx result =
     (if isdigit ch
      then (if idx < length new_digits
            then reinsert s new_digits (idx + 1) (result @ [new_digits ! idx])
            else Inl IndexError)
      else reinsert s new_digits idx (result @ [ch]))"

text \<open>
  \<open>deterministic_numeric_like(value, preserve_last, key)\<close>; \<open>None\<close> is returned as it is.
\<close>

definition deterministic_numeric_like :: "string option \<Rightarrow> int \<Rightarrow> string \<Rightarrow> error + string option" where
  "deterministic_numeric_like val preserve_last key =
     (case val of
        None \<Rightarrow> Inr None
      | Some s \<Rightarrow>
          (let digits = filter re_digit s in
           if digits = [] then Inr (Some s)
           else
             (let keep = (if 0 < preserve_last \<and> preserve_last < int (length digits)
                          then drop (length digits - nat preserve_last) digits else []);
                  repl_len = length digits - length keep;
                  stream = pseudo_digit_stream (encode_utf8 key) digits repl_len;
                  new_digits = concat (map str_nat stream) @ keep
              in map_sum id Some (reinsert s new_digits 0 []))))"

text \<open>
  The locals \<open>keep\<close> and \<open>new_digits\<close> of \<open>deterministic_numeric_like\<close>, as functions of
  \<open>digits\<close>, \<open>preserve_last\<close> and the key:
  \<open>keep = digits[-preserve_last:] if 0 < preserve_last < len(digits) else ""\<close> and
  \<open>new_digits = "".join(str(d) for d in stream) + keep\<close>, the stream being taken over
  \<open>len(digits) - len(keep)\<close> positions.
\<close>

definition keep_tail :: "string \<Rightarrow> int \<Rightarrow> string" where
  "keep_tail digits preserve_last =
     (if 0 < preserve_last \<and> preserve_last < int (length digits)
      then drop (length digits - nat preserve_last) digits else [])"

definition new_digits :: "string \<Rightarrow> string \<Rightarrow> int \<Rightarrow> string" where
  "new_digits key digits preserve_last =
     concat (map str_nat
       (pseudo_digit_stream (encode_utf8 key) digits
          (length digits - length (keep_tail digits preserve_last))))
     @ keep_tail digits preserve_last"

text \<open>A call that omits \<open>key\<close> takes the default argument \<open>PSEUDO_KEY\<close>.\<close>

definition deterministic_numeric_like_default ::
    "(string \<rightharpoonup> string) \<Rightarrow> string option \<Rightarrow> int \<Rightarrow> error + string option" where
  "deterministic_numeric_like_default env val preserve_last =
     deterministic_numeric_like val preserve_last (PSEUDO_KEY env)"

section \<open>The reconciliation engine (\<open>SHIELD/pii_detection.py\<close>)\<close>

text \<open>
  \<open>str.upper\<close> on one character. The sharp s becomes \<open>SS\<close>; U+00B5 and U+00FF, whose
  upper-case forms lie beyond U+00FF, are left in place.
\<close>

definition upper_char :: "char \<Rightarrow> string" where
  "upper_char c =
     (if (97 \<le> cp c \<and> cp c \<le> 122) \<or> (224 \<le> cp c \<and> cp c \<le> 254 \<and> cp c \<noteq> 247)
      then [char_of (cp c - 32)]
      else if cp c = 223 then ''SS'' else [c])"

definition upper :: "string \<Rightarrow> string" where
  "upper s = concat (map upper_char s)"

text \<open>\<open>s.replace(a, b)\<close> for single characters \<open>a\<close> and \<open>b\<close>.\<close>

definition replace_char :: "char \<Rightarrow> char \<Rightarrow> string \<Rightarrow> string" where
  "replace_char a b s = map (\<lambda>c. if c = a then b else c) s"

text \<open>\<open>_sanitize_label\<close>: \<open>(lbl or "").replace(" ", "_").replace("-", "_").upper()\<close>.\<close>

definition pii_sanitize_label :: "string \<Rightarrow> string" where
  "pii_sanitize_label lbl = upper (replace_char CHR ''-'' CHR ''_'' (replace_char CHR '' '' CHR ''_'' lbl))"

text \<open>\<open>_within\<close>: \<open>0 <= s < e <= len(text)\<close>.\<close>

definition within :: "string \<Rightarrow> int \<Rightarrow> int \<Rightarrow> bool" where
  "within text s e = (0 \<le> s \<and> s < e \<and> e \<le> int (length text))"

text \<open>
  A candidate as a producer hands it over. \<open>RawSpan val lbl s e\<close> is an item that unpacks
  into four parts: the value, \<open>str(lbl)\<close>, and the results of \<open>int(s)\<close> and \<open>int(e)\<close>, \<open>None\<close>
  where the conversion raises. \<open>BadShape\<close> is an item that does not unpack into four parts.
  An accepted candidate is the tuple \<open>(val, lbl, s, e)\<close>.
\<close>

datatype raw_span = RawSpan string string "int option" "int option" | BadShape

type_synonym ent = "string \<times> string \<times> int \<times> int"

fun ent_value :: "ent \<Rightarrow> string" where
  "ent_value (v, l, s, e) = v"

fun ent_label :: "ent \<Rightarrow> string" where
  "ent_label (v, l, s, e) = l"

fun ent_start :: "ent \<Rightarrow> int" where
  "ent_start (v, l, s, e) = s"

fun ent_end :: "ent \<Rightarrow> int" where
  "ent_end (v, l, s, e) = e"

text \<open>The body of the \<open>try\<close> in the flattening loop; \<open>None\<close> when the item is skipped.\<close>

definition normalize_raw :: "string \<Rightarrow> raw_span \<Rightarrow> ent option" where
  "normalize_raw text t =
     (case t of
        BadShape \<Rightarrow> None
      | RawSpan val lbl so eo \<Rightarrow>
          (case so of
             None \<Rightarrow> None
           | Some s \<Rightarrow>
               (case eo of
                  None \<Rightarrow> None
                | Some e \<Rightarrow>
                    if within text s e then Some (val, pii_sanitize_label lbl, s, e) else None)))"

definition flatten :: "string \<Rightarrow> raw_span list list \<Rightarrow> ent list" where
  "flatten text batches = concat (map (List.map_filter (normalize_raw text)) batches)"

text \<open>The exact-duplicate test and the same-label overlap test of the scan.\<close>

definition same_span :: "ent \<Rightarrow> ent \<Rightarrow> bool" where
  "same_span c x = (ent_start c = ent_start x \<and> ent_end c = ent_end x \<and> ent_label c = ent_label x)"

text \<open>The identity of a span in the exact-duplicate test: \<open>(start, end, label)\<close>.\<close>

definition span_key :: "ent \<Rightarrow> int \<times> int \<times> string" where
  "span_key x = (ent_start x, ent_end x, ent_label x)"

definition clashes :: "ent \<Rightarrow> ent \<Rightarrow> bool" where
  "clashes c x = (ent_label x = ent_label c \<and> \<not> (ent_end c \<le> ent_start x \<or> ent_start c \<ge> ent_end x))"

definition span_width :: "ent \<Rightarrow> int" where
  "span_width x = ent_end x - ent_start x"

text \<open>
  One iteration of the scan over the sorted candidates. \<open>overlaps\<close> and \<open>to_remove\<close> are
  lists of indices into \<open>out\<close>, as in the source; every index is in range by construction.
\<close>

definition merge_step :: "ent list \<Rightarrow> ent \<Rightarrow> ent list" where
  "merge_step out c =
     (if list_ex (same_span c) out then out
      else
        (let overlaps = map fst (filter (\<lambda>(i, x). clashes c x) (enumerate 0 out)) in
         if overlaps \<noteq> [] then
           (let keep_current = list_all (\<lambda>i. \<not> (span_width (out ! i) \<ge> span_width c)) overlaps;
                to_remove = filter (\<lambda>i. \<not> (span_width (out ! i) \<ge> span_width c)) overlaps;
                out' = (if to_remove \<noteq> []
                        then map snd (filter (\<lambda>(idx, x). idx \<notin> set to_remove) (enumerate 0 out))
                        else out)
            in if keep_current then out' @ [c] else out')
         else out @ [c]))"

text \<open>
  \<open>_merge_and_dedupe(text, *lists)\<close>: flatten, sort stably by \<open>(start, -end)\<close>, scan.
\<close>

definition merge_and_dedupe :: "string \<Rightarrow> raw_span list list \<Rightarrow> ent list" where
  "merge_and_dedupe text batches =
     foldl merge_step [] (sort_key (\<lambda>x. (ent_start x, - ent_end x)) (flatten text batches))"

section \<open>Strings, lines and slices\<close>

text \<open>\<open>str.splitlines\<close>: the line boundaries of the range, \<open>\r\n\<close> counting as one.\<close>

definition is_linebreak :: "char \<Rightarrow> bool" where
  "is_linebreak c = ((10 \<le> cp c \<and> cp c \<le> 13) \<or> (28 \<le> cp c \<and> cp c \<le> 30) \<or> cp c = 133)"

fun splitlines_from :: "string \<Rightarrow> string \<Rightarrow> string list" where
  "splitlines_from cur [] = (if cur = [] then [] else [cur])"
| "splitlines_from cur [c] = (if is_linebreak c then [cur] else [cur @ [c]])"
| "splitlines_from cur (c # d # cs) =
     (if cp c = 13 \<and> cp d = 10 then cur # splitlines_from [] cs
      else if is_linebreak c then cur # splitlines_from [] (d # cs)
      else splitlines_from (cur @ [c]) (d # cs))"

definition splitlines :: "string \<Rightarrow> string list" where
  "splitlines s = splitlines_from [] s"

text \<open>\<open>str.lstrip\<close> and \<open>str.strip\<close> without arguments.\<close>

definition lstrip :: "string \<Rightarrow> string" where
  "lstrip s = dropWhile isspace s"

definition strip :: "string \<Rightarrow> string" where
  "strip s = rev (dropWhile isspace (rev (dropWhile isspace s)))"

text \<open>
  The slice \<open>xs[i:j]\<close>: a negative index counts from the end, and both indices are clamped
  to the sequence.
\<close>

definition slice_index :: "nat \<Rightarrow> int \<Rightarrow> int" where
  "slice_index n i = (if i < 0 then max (int n + i) 0 else min i (int n))"

definition py_slice :: "'a list \<Rightarrow> int \<Rightarrow> int \<Rightarrow> 'a list" where
  "py_slice xs i j =
     take (nat (slice_index (length xs) j - slice_index (length xs) i))
          (drop (nat (slice_index (length xs) i)) xs)"

section \<open>The review loop (\<open>SHIELD/feedback_loop.py\<close>)\<close>

text \<open>The loop of \<open>compute_line_position\<close> over the lines, and the function.\<close>

fun line_position_loop :: "string list \<Rightarrow> int \<Rightarrow> int \<Rightarrow> int \<Rightarrow> int \<Rightarrow> int \<times> int \<times> int" where
  "line_position_loop [] i offset start en = (- 1, - 1, - 1)"
| "line_position_loop (line # rest) i offset start en =
     (if offset + (int (length line) + 1) > start then (i + 1, start - offset, en - offset)
      else line_position_loop rest (i + 1) (offset + (int (length line) + 1)) start en)"

definition compute_line_position :: "string \<Rightarrow> int \<Rightarrow> int \<Rightarrow> int \<times> int \<times> int" where
  "compute_line_position text start en = line_position_loop (splitlines text) 0 0 start en"

text \<open>\<open>sanitize_label\<close>: \<open>(lbl or "").strip().replace(" ", "_").replace("-", "_").upper()\<close>.\<close>

definition sanitize_label :: "string \<Rightarrow> string" where
  "sanitize_label lbl = upper (replace_char CHR ''-'' CHR ''_'' (replace_char CHR '' '' CHR ''_'' (strip lbl)))"

text \<open>
  The dictionary \<open>{"start", "end", "label", "line_number", "left", "right", "value"}\<close> that
  \<open>normalize_entity\<close> returns.
\<close>

record span =
  sp_start :: int
  sp_end :: int
  sp_label :: string
  sp_line_number :: int
  sp_left :: int
  sp_right :: int
  sp_value :: string

text \<open>
  An entity handed to the review. \<open>RawEntity pv lbl s e\<close> is an entity in one of the accepted
  shapes (a dictionary, or a tuple \<open>(value, label, "s-e")\<close>, \<open>(value, label, s, e)\<close> or
  \<open>(s, e, label)\<close>) after its parts are read: the provided value if it is a string, the label,
  and the integer offsets. \<open>Unrecognized\<close> is any other entity, and any entity on which
  reading a part raises: for these \<open>normalize_entity\<close> returns \<open>None\<close> whatever the text.
\<close>

datatype raw_entity = RawEntity "string option" string int int | Unrecognized

definition normalize_entity :: "string \<Rightarrow> raw_entity \<Rightarrow> span option" where
  "normalize_entity text ent =
     (case ent of
        Unrecognized \<Rightarrow> None
      | RawEntity provided_value lbl s e \<Rightarrow>
          if \<not> (0 \<le> s \<and> s < e \<and> e \<le> int (length text)) then None
          else
            (case compute_line_position text s e of
               (ln, lf, rt) \<Rightarrow>
                 Some \<lparr>sp_start = s, sp_end = e, sp_label = sanitize_label lbl,
                       sp_line_number = ln, sp_left = lf, sp_right = rt,
                       sp_value = (case provided_value of
                                     None \<Rightarrow> py_slice text s e
                                   | Some v \<Rightarrow> if v \<noteq> [] \<and> strip v \<noteq> [] then v else py_slice text s e)\<rparr>))"

text \<open>The two tests of \<open>dedupe_overlaps\<close>: the exact duplicate and the same-label clash.\<close>

definition same_triple :: "span \<Rightarrow> span \<Rightarrow> bool" where
  "same_triple e x = (sp_start e = sp_start x \<and> sp_end e = sp_end x \<and> sp_label e = sp_label x)"

text \<open>The triple that the duplicate test compares.\<close>

definition span_triple :: "span \<Rightarrow> int \<times> int \<times> string" where
  "span_triple x = (sp_start x, sp_end x, sp_label x)"

definition span_clash :: "span \<Rightarrow> span \<Rightarrow> bool" where
  "span_clash e x = (\<not> (sp_end e \<le> sp_start x \<or> sp_start e \<ge> sp_end x) \<and> sp_label x = sp_label e)"

text \<open>\<open>max(xs, key=f)\<close> on the non-empty list \<open>x # xs\<close>: the first element with the largest key.\<close>

definition py_max :: "('a \<Rightarrow> int) \<Rightarrow> 'a \<Rightarrow> 'a list \<Rightarrow> 'a" where
  "py_max f x xs = foldl (\<lambda>m y. if f y > f m then y else m) x xs"

definition dedupe_step :: "span list \<Rightarrow> span \<Rightarrow> span list" where
  "dedupe_step out e =
     (if list_ex (same_triple e) out then out
      else
        (let clashes = filter (span_clash e) out in
         if clashes \<noteq> [] then
           (let widest = py_max (\<lambda>z. sp_end z - sp_start z) e clashes
            in filter (\<lambda>x. x \<notin> set clashes) out @ [widest])
         else out @ [e]))"

definition dedupe_overlaps :: "span list \<Rightarrow> span list" where
  "dedupe_overlaps ents = foldl dedupe_step [] (sort_key (\<lambda>x. (sp_start x, - sp_end x)) ents)"

text \<open>
  One line read by \<open>input()\<close>, stripped and classified as the loop does: the empty line,
  \<open>x\<close>, \<open>l NEWLABEL\<close> (with the text after \<open>l\<close>), \<open>e START END\<close> with both integers read,
  an \<open>e\<close> line on which splitting or conversion raises, \<open>s\<close>, and any other line.
\<close>

datatype command = Confirm | Exclude | Relabel string | Edit int int | EditMalformed | Skip | Other

text \<open>
  The loop over the cleaned entities; \<open>input()\<close> raises EOFError when no line is left.
\<close>

fun review_loop :: "string \<Rightarrow> span list \<Rightarrow> command list \<Rightarrow> span list \<Rightarrow> error + span list" where
  "review_loop text [] cmds final = Inr final"
| "review_loop text (e # es) [] final = Inl EOFError"
| "review_loop text (e # es) (cmd # cmds) final =
     (case cmd of
        Confirm \<Rightarrow> review_loop text es cmds (final @ [e])
      | Exclude \<Rightarrow> review_loop text es cmds final
      | Relabel new_label \<Rightarrow>
          review_loop text es cmds (final @ [e\<lparr>sp_label := sanitize_label (strip new_label)\<rparr>])
      | Edit s ed \<Rightarrow>
          if 0 \<le> s \<and> s < ed \<and> ed \<le> int (length text)
          then (case compute_line_position text s ed of
                  (ln, lf, rt) \<Rightarrow>
                    review_loop text es cmds
                      (final @ [e\<lparr>sp_start := s, sp_end := ed, sp_line_number := ln, sp_left := lf,
                                  sp_right := rt, sp_value := py_slice text s ed\<rparr>]))
          else review_loop text es cmds final
      | EditMalformed \<Rightarrow> review_loop text es cmds final
      | Skip \<Rightarrow> Inr final
      | Other \<Rightarrow> review_loop text es cmds final)"

definition collect_user_feedback :: "string \<Rightarrow> raw_entity list \<Rightarrow> command list \<Rightarrow> error + span list" where
  "collect_user_feedback text entities cmds =
     map_sum id dedupe_overlaps
       (review_loop text (dedupe_overlaps (List.map_filter (normalize_entity text) entities)) cmds [])"

section \<open>The fixed-width extractor (\<open>SHIELD/utils.py\<close>)\<close>

text \<open>
  A field of the configuration after its parts are read as the extractor reads them:
  \<open>f_label\<close> is \<open>str(f["label"])\<close>, \<open>f_group\<close>, \<open>f_line\<close>, \<open>f_left\<close> and \<open>f_right\<close> are the
  integers \<open>int(...)\<close> of the entries. \<open>None\<close> is a part whose reading raises (the key is
  missing, the value does not convert, or the field is no dictionary); every such raise is
  caught by the extractor, at the place the model shows.
\<close>

record field =
  f_label :: "string option"
  f_group :: "int option"
  f_line :: "int option"
  f_left :: "int option"
  f_right :: "int option"

text \<open>
  The configuration: \<open>cfg_header_skip\<close> and \<open>cfg_footer_skip\<close> are the values of
  \<open>int(config.get(key, 0) or 0)\<close>, \<open>Some 0\<close> when the key is missing or its value is falsy and
  \<open>None\<close> when the conversion raises, which is not caught; \<open>cfg_fields\<close> is the list
  \<open>config.get("fields", [])\<close>.
\<close>

record config =
  cfg_header_skip :: "int option"
  cfg_footer_skip :: "int option"
  cfg_fields :: "field list"

text \<open>\<open>is_break_line\<close>: the stripped line is empty or made of dashes.\<close>

definition is_break_line :: "string \<Rightarrow> bool" where
  "is_break_line s = (strip s = [] \<or> list_all (\<lambda>ch. ch = CHR ''-'') (strip s))"

text \<open>
  The cumulative offsets: \<open>offsets[i]\<close> is the sum of \<open>len(ln) + 1\<close> over the lines before
  line \<open>i\<close>, and \<open>offsets[n]\<close> the sum over all lines.
\<close>

fun offsets_from :: "int \<Rightarrow> string list \<Rightarrow> int list" where
  "offsets_from acc [] = [acc]"
| "offsets_from acc (ln # lns) = acc # offsets_from (acc + int (length ln) + 1) lns"

definition line_offsets :: "string list \<Rightarrow> int list" where
  "line_offsets lines = offsets_from 0 lines"

text \<open>
  The body of the loop over the fields at the physical row \<open>row\<close>: the span that the field
  appends, or \<open>None\<close> when the field is skipped (by \<open>continue\<close> or by the caught exception).
\<close>

definition field_span ::
    "string list \<Rightarrow> int list \<Rightarrow> int \<Rightarrow> int \<Rightarrow> int \<Rightarrow> int \<Rightarrow> field \<Rightarrow> ent option" where
  "field_span lines offsets win_first win_last base_rel row f =
     (case f_label f of
        None \<Rightarrow> None
      | Some lb \<Rightarrow>
          (case f_line f of
             None \<Rightarrow> None
           | Some ln \<Rightarrow>
               (let line_idx = row + (ln - base_rel) in
                if line_idx < win_first \<or> line_idx \<ge> win_last then None
                else
                  (case f_left f of
                     None \<Rightarrow> None
                   | Some left \<Rightarrow>
                       (case f_right f of
                          None \<Rightarrow> None
                        | Some right \<Rightarrow>
                            (let src = lines ! nat line_idx in
                             if left \<ge> int (length src) then None
                             else
                               (let r = min (max right left) (int (length src));
                                    raw = py_slice src left r
                                in if raw = [] then None
                                   else
                                     (let lead = int (length raw) - int (length (lstrip raw));
                                          v = strip raw
                                      in if v = [] then None
                                         else
                                           (let start_abs = offsets ! nat line_idx + (left + lead)
                                            in Some (v, strip lb, start_abs,
                                                     start_abs + int (length v)))))))))))"

definition row_spans ::
    "string list \<Rightarrow> int list \<Rightarrow> int \<Rightarrow> int \<Rightarrow> int \<Rightarrow> field list \<Rightarrow> int \<Rightarrow> ent list" where
  "row_spans lines offsets win_first win_last base_rel flds row =
     List.map_filter (field_span lines offsets win_first win_last base_rel row) flds"

text \<open>
  The \<open>while row < win_last\<close> loop of one group, from the row \<open>row\<close> with the flag
  \<open>started\<close>: a row that appends a span sets the flag and goes on; a row that appends
  nothing is passed over while the flag is unset (whether it is a break line or not) and
  ends the loop once it is set.
\<close>

function group_rows ::
    "string list \<Rightarrow> int list \<Rightarrow> int \<Rightarrow> int \<Rightarrow> int \<Rightarrow> field list \<Rightarrow> bool \<Rightarrow> int \<Rightarrow> ent list" where
  "group_rows lines offsets win_first win_last base_rel flds started row =
     (if row < win_last
      then (if row_spans lines offsets win_first win_last base_rel flds row \<noteq> []
            then row_spans lines offsets win_first win_last base_rel flds row
                 @ group_rows lines offsets win_first win_last base_rel flds True (row + 1)
            else if \<not> started
                 then (if is_break_line (lines ! nat row)
                       then group_rows lines offsets win_first win_last base_rel flds False (row + 1)
                       else group_rows lines offsets win_first win_last base_rel flds False (row + 1))
                 else [])
      else [])"
  by pat_completeness auto
termination
  by (relation "measure (\<lambda>(lines, offsets, win_first, win_last, base_rel, flds, started, row).
                  nat (win_last - row))") auto

declare group_rows.simps [simp del]

text \<open>
  One group: the base line is the least \<open>int(f["line"])\<close>, and the group is passed over
  when a line does not convert or when the first row lies outside the window.
\<close>

definition group_spans :: "string list \<Rightarrow> int list \<Rightarrow> int \<Rightarrow> int \<Rightarrow> field list \<Rightarrow> ent list" where
  "group_spans lines offsets win_first win_last flds =
     (if flds = [] \<or> list_ex (\<lambda>f. f_line f = None) flds then []
      else
        (let base_rel = min_list (map (\<lambda>f. the (f_line f)) flds);
             row = win_first + base_rel
         in if row < win_first \<or> row \<ge> win_last then []
            else group_rows lines offsets win_first win_last base_rel flds False row))"

text \<open>The group of a field: \<open>int(f.get("group", 0))\<close>, and 0 when that raises.\<close>

definition group_of :: "field \<Rightarrow> int" where
  "group_of f = (case f_group f of None \<Rightarrow> 0 | Some g \<Rightarrow> g)"

text \<open>
  \<open>extract_spans_from_smart_config(text, config)\<close>: the groups are taken in increasing order
  of their number, the fields of a group in the order of the configuration.
\<close>

definition extract_spans_from_smart_config :: "string \<Rightarrow> config \<Rightarrow> error + ent list" where
  "extract_spans_from_smart_config text config =
     (case cfg_header_skip config of
        None \<Rightarrow> Inl ValueError
      | Some header_skip \<Rightarrow>
          (case cfg_footer_skip config of
             None \<Rightarrow> Inl ValueError
           | Some footer_skip \<Rightarrow>
               (let lines = splitlines text;
                    offsets = line_offsets lines;
                    win_first = max 0 header_skip;
                    win_last = int (length lines) - max 0 footer_skip
                in Inr (concat (map (\<lambda>g. group_spans lines offsets win_first win_last
                                            (filter (\<lambda>f. group_of f = g) (cfg_fields config)))
                                  (sort (remdups (map group_of (cfg_fields config)))))))))"

section \<open>Properties of the pseudonymization engine\<close>

lemma length_state_bytes: "length (state_bytes s) = 32"
  by (cases s rule: state_bytes.cases) (simp add: be_bytes_def)

lemma length_hmac_sha256: "length (hmac_sha256 key msg) = 32"
  by (simp add: hmac_sha256_def sha256_def length_state_bytes)

lemma pseudo_digit_loop_length: "n \<le> length (pseudo_digit_loop key seed n out i)"
proof (induction key seed n out i rule: pseudo_digit_loop.induct)
  case (1 key seed n out i)
  show ?case
  proof (cases "length out < n")
    case True
    with 1 show ?thesis by (subst pseudo_digit_loop.simps) simp
  next
    case False
    then show ?thesis by (subst pseudo_digit_loop.simps) simp
  qed
qed

lemma pseudo_digit_loop_digits:
  "\<forall>d \<in> set out. d < 10 \<Longrightarrow> \<forall>d \<in> set (pseudo_digit_loop key seed n out i). d < 10"
proof (induction key seed n out i rule: pseudo_digit_loop.induct)
  case (1 key seed n out i)
  show ?case
  proof (cases "length out < n")
    case True
    have ext: "\<forall>d\<in>set (out @ map (\<lambda>b. b mod 10) (hmac_sha256 key (encode_utf8 (seed @ ''|'' @ str_nat i)))). d < 10"
      using 1(2) by auto
    have eq: "pseudo_digit_loop key seed n out i = pseudo_digit_loop key seed n
       (out @ map (\<lambda>b. b mod 10) (hmac_sha256 key (encode_utf8 (seed @ ''|'' @ str_nat i)))) (i + 1)"
      using True by (subst pseudo_digit_loop.simps) simp
    show ?thesis
      unfolding eq by (rule 1(1) [OF True ext])
  next
    case False
    have "pseudo_digit_loop key seed n out i = out"
      using False by (subst pseudo_digit_loop.simps) simp
    with 1(2) show ?thesis by simp
  qed
qed

lemma length_pseudo_digit_stream: "length (pseudo_digit_stream key seed n) = n"
  using pseudo_digit_loop_length [of n key seed "[]" 0] by (simp add: pseudo_digit_stream_def)

lemma pseudo_digit_stream_digits: "d \<in> set (pseudo_digit_stream key seed n) \<Longrightarrow> d < 10"
  using pseudo_digit_loop_digits [of "[]" key seed n 0]
  by (auto simp: pseudo_digit_stream_def dest: in_set_takeD)

lemma str_nat_digit: "d < 10 \<Longrightarrow> str_nat d = [char_of (48 + d)]"
  by (subst str_nat.simps) simp

lemma length_concat_str_nat: "\<forall>d \<in> set ds. d < 10 \<Longrightarrow> length (concat (map str_nat ds)) = length ds"
  by (induction ds) (simp_all add: str_nat_digit)

lemma length_new_digits:
  "length (concat (map str_nat (pseudo_digit_stream key seed n))) = n"
  using length_concat_str_nat [of "pseudo_digit_stream key seed n"] pseudo_digit_stream_digits
  by (simp add: length_pseudo_digit_stream)

lemma isdigit_sup2: "isdigit (CHR 0xB2)" "\<not> re_digit (CHR 0xB2)"
  by (simp_all add: isdigit_def re_digit_def cp_def)

lemma singleton_new_digits:
  "\<exists>c. concat (map str_nat (pseudo_digit_stream key seed (Suc 0))) = [c]"
  using length_new_digits [of key seed "Suc 0"] by (simp add: length_Suc_conv)

lemma reinsert_short:
  "isdigit a \<Longrightarrow> isdigit b \<Longrightarrow> reinsert [a, b] [c] 0 [] = Inl IndexError"
  by simp

lemma dnl_replace_all:
  assumes "filter re_digit s = ds" and "ds \<noteq> []"
    and "\<not> (0 < preserve_last \<and> preserve_last < int (length ds))"
  shows "deterministic_numeric_like (Some s) preserve_last key =
         map_sum id Some (reinsert s
           (concat (map str_nat (pseudo_digit_stream (encode_utf8 key) ds (length ds)))) 0 [])"
  using assms by (auto simp: deterministic_numeric_like_def Let_def)

text \<open>
  Claim C2 (length and format invariance of \<open>deterministic_numeric_like\<close> for every input).
  The digits are collected with \<open>\D\<close> but replaced under \<open>isdigit\<close>, and the two disagree on
  the superscript digits: on the two-character value \<open>"1\u00b2"\<close> one new digit is produced
  and two are read, so for every \<open>preserve_last\<close> and every key the call raises IndexError
  and returns no output at all.
\<close>

theorem deterministic_numeric_like_superscript_raises:
  "deterministic_numeric_like (Some [CHR ''1'', CHR 0xB2]) preserve_last key = Inl IndexError"
proof -
  have d: "filter re_digit [CHR ''1'', CHR 0xB2] = ''1''"
    by (simp add: re_digit_def cp_def)
  have i1: "isdigit CHR ''1''" by (simp add: isdigit_def cp_def)
  have k: "\<not> (0 < preserve_last \<and> preserve_last < int (length ''1''))" by simp
  obtain c where c: "concat (map str_nat (pseudo_digit_stream (encode_utf8 key) ''1'' (Suc 0))) = [c]"
    using singleton_new_digits by blast
  have "deterministic_numeric_like (Some [CHR ''1'', CHR 0xB2]) preserve_last key =
        map_sum id Some (reinsert [CHR ''1'', CHR 0xB2] [c] 0 [])"
    using dnl_replace_all [OF d _ k, of key] c by simp
  then show ?thesis
    using reinsert_short [OF i1 isdigit_sup2(1)] by simp
qed

subsection \<open>The stream under the default key\<close>

text \<open>
  \<open>HMAC-SHA256("CHANGE-ME-IN-ENV", "1|0")\<close> is \<open>bcc4f635...4689\<close>; its first byte, 188,
  gives the stream digit 8.
\<close>

lemma replicate_num: "replicate (numeral k) x = x # replicate (pred_numeral k) x"
  by (simp add: numeral_eq_Suc)

lemma default_key_bytes: "encode_utf8 ''CHANGE-ME-IN-ENV'' = [67, 72, 65, 78, 71, 69, 45, 77, 69, 45, 73, 78, 45, 69, 78, 86]"
  by (simp add: encode_utf8_def cp_def)

lemma default_key_block: "hmac_key [67, 72, 65, 78, 71, 69, 45, 77, 69, 45, 73, 78, 45, 69, 78, 86] = [67, 72, 65, 78, 71, 69, 45, 77, 69, 45, 73, 78, 45, 69, 78, 86, 0, 0, 0, 0, 0, 0, 0, 0, 0, 0, 0, 0, 0, 0, 0, 0, 0, 0, 0, 0, 0, 0, 0, 0, 0, 0, 0, 0, 0, 0, 0, 0, 0, 0, 0, 0, 0, 0, 0, 0, 0, 0, 0, 0, 0, 0, 0, 0]"
  by (simp add: hmac_key_def replicate_num)

lemma default_key_inner:
  "sha256 (map (\<lambda>b. b XOR 54) [67, 72, 65, 78, 71, 69, 45, 77, 69, 45, 73, 78, 45, 69, 78, 86, 0, 0, 0, 0, 0, 0, 0, 0, 0, 0, 0, 0, 0, 0, 0, 0, 0, 0, 0, 0, 0, 0, 0, 0, 0, 0, 0, 0, 0, 0, 0, 0, 0, 0, 0, 0, 0, 0, 0, 0, 0, 0, 0, 0, 0, 0, 0, 0] @ [49, 124, 48]) = [219, 133, 228, 245, 111, 191, 86, 2, 194, 101, 21, 51, 27, 99, 78, 92, 130, 162, 121, 172, 230, 131, 14, 190, 174, 201, 18, 103, 183, 152, 213, 227]"
  by (simp add: sha256_def sha_pad_def len_bytes_def be_bytes_def compress_def sha_K_def sha_H0_def bsig0_def bsig1_def ssig0_def ssig1_def Ch_def Maj_def rotr_def add32_def chunks64.simps replicate_num)

lemma default_key_outer:
  "sha256 (map (\<lambda>b. b XOR 92) [67, 72, 65, 78, 71, 69, 45, 77, 69, 45, 73, 78, 45, 69, 78, 86, 0, 0, 0, 0, 0, 0, 0, 0, 0, 0, 0, 0, 0, 0, 0, 0, 0, 0, 0, 0, 0, 0, 0, 0, 0, 0, 0, 0, 0, 0, 0, 0, 0, 0, 0, 0, 0, 0, 0, 0, 0, 0, 0, 0, 0, 0, 0, 0] @ [219, 133, 228, 245, 111, 191, 86, 2, 194, 101, 21, 51, 27, 99, 78, 92, 130, 162, 121, 172, 230, 131, 14, 190, 174, 201, 18, 103, 183, 152, 213, 227]) = [188, 196, 246, 53, 20, 217, 210, 40, 196, 57, 214, 170, 141, 47, 234, 36, 137, 128, 118, 187, 243, 66, 202, 143, 250, 127, 90, 34, 57, 253, 70, 137]"
  by (simp add: sha256_def sha_pad_def len_bytes_def be_bytes_def compress_def sha_K_def sha_H0_def bsig0_def bsig1_def ssig0_def ssig1_def Ch_def Maj_def rotr_def add32_def chunks64.simps replicate_num)

lemma hmac_default_key_1:
  "hmac_sha256 (encode_utf8 ''CHANGE-ME-IN-ENV'') (encode_utf8 ''1|0'') = [188, 196, 246, 53, 20, 217, 210, 40, 196, 57, 214, 170, 141, 47, 234, 36, 137, 128, 118, 187, 243, 66, 202, 143, 250, 127, 90, 34, 57, 253, 70, 137]"
proof -
  have m: "encode_utf8 ''1|0'' = [49, 124, 48]"
    by (simp add: encode_utf8_def cp_def)
  show ?thesis
    unfolding hmac_sha256_def default_key_bytes default_key_block m default_key_inner default_key_outer
    by (rule refl)
qed

lemma stream_default_key_1:
  "pseudo_digit_stream (encode_utf8 ''CHANGE-ME-IN-ENV'') ''1'' (Suc 0) = [8]"
proof -
  let ?k = "encode_utf8 ''CHANGE-ME-IN-ENV''"
  let ?blk = "map (\<lambda>b. b mod 10) (hmac_sha256 ?k (encode_utf8 ''1|0''))"
  have s0: "str_nat 0 = ''0''" by code_simp
  have step: "pseudo_digit_loop ?k ''1'' (Suc 0) [] 0 = pseudo_digit_loop ?k ''1'' (Suc 0) ?blk 1"
    by (subst pseudo_digit_loop.simps) (simp add: s0)
  have stop: "pseudo_digit_loop ?k ''1'' (Suc 0) ?blk 1 = ?blk"
    by (subst pseudo_digit_loop.simps) (simp add: length_hmac_sha256)
  have "pseudo_digit_stream ?k ''1'' (Suc 0) = take (Suc 0) ?blk"
    by (simp only: pseudo_digit_stream_def step stop)
  also have "\<dots> = [8]"
    by (simp add: hmac_default_key_1)
  finally show ?thesis .
qed

lemma dnl_default_key_1:
  "\<not> (0 < p \<and> p < 1) \<Longrightarrow> deterministic_numeric_like (Some ''1'') p ''CHANGE-ME-IN-ENV'' = Inr (Some ''8'')"
proof -
  assume k: "\<not> (0 < p \<and> p < 1)"
  have d: "filter re_digit ''1'' = ''1''" by (simp add: re_digit_def cp_def)
  have k': "\<not> (0 < p \<and> p < int (length ''1''))" using k by simp
  have i1: "isdigit CHR ''1''" by (simp add: isdigit_def cp_def)
  have s8: "str_nat 8 = ''8''" by code_simp
  show ?thesis
    using dnl_replace_all [OF d _ k', of "''CHANGE-ME-IN-ENV''"]
    by (simp add: stream_default_key_1 s8 i1)
qed

lemma re_digit_isdigit: "re_digit c \<Longrightarrow> isdigit c"
  by (auto simp: re_digit_def isdigit_def)

lemma length_re_digit_le: "length (filter re_digit s) \<le> length (filter isdigit s)"
  by (induction s) (auto simp: re_digit_isdigit)

lemma decimal_only_iff:
  "(\<forall>c \<in> set s. isdigit c \<longrightarrow> re_digit c) = (length (filter isdigit s) \<le> length (filter re_digit s))"
proof (induction s)
  case Nil
  then show ?case by simp
next
  case (Cons ch s)
  show ?case
    using Cons.IH length_re_digit_le [of s] re_digit_isdigit [of ch] by auto
qed

lemma upt_Cons_map_Suc: "[0..<Suc n] = 0 # map Suc [0..<n]"
  by (simp add: upt_conv_Cons map_Suc_upt del: upt_Suc)

lemma reinsert_returns:
  "idx + length (filter isdigit s) \<le> length nd \<Longrightarrow>
   reinsert s nd idx res =
     Inr (res @ map (\<lambda>i. if isdigit (s ! i) then nd ! (idx + length (filter isdigit (take i s))) else s ! i)
                  [0..<length s])"
proof (induction s arbitrary: idx res)
  case Nil
  then show ?case by simp
next
  case (Cons ch s)
  show ?case
  proof (cases "isdigit ch")
    case True
    then have lt: "idx < length nd" and le: "(idx + 1) + length (filter isdigit s) \<le> length nd"
      using Cons.prems by simp_all
    have "reinsert (ch # s) nd idx res = reinsert s nd (idx + 1) (res @ [nd ! idx])"
      using True lt by simp
    also have "\<dots> = Inr ((res @ [nd ! idx]) @
        map (\<lambda>i. if isdigit (s ! i) then nd ! ((idx + 1) + length (filter isdigit (take i s))) else s ! i)
          [0..<length s])"
      by (rule Cons.IH [OF le])
    finally show ?thesis
      using True by (simp add: upt_Cons_map_Suc comp_def del: upt_Suc)
  next
    case False
    then have le: "idx + length (filter isdigit s) \<le> length nd"
      using Cons.prems by simp
    have "reinsert (ch # s) nd idx res = reinsert s nd idx (res @ [ch])"
      using False by simp
    also have "\<dots> = Inr ((res @ [ch]) @
        map (\<lambda>i. if isdigit (s ! i) then nd ! (idx + length (filter isdigit (take i s))) else s ! i)
          [0..<length s])"
      by (rule Cons.IH [OF le])
    finally show ?thesis
      using False by (simp add: upt_Cons_map_Suc comp_def del: upt_Suc)
  qed
qed

lemma reinsert_raises:
  "idx \<le> length nd \<Longrightarrow> length nd < idx + length (filter isdigit s) \<Longrightarrow>
   reinsert s nd idx res = Inl IndexError"
proof (induction s arbitrary: idx res)
  case Nil
  then show ?case by simp
next
  case (Cons ch s)
  show ?case
  proof (cases "isdigit ch")
    case True
    show ?thesis
    proof (cases "idx < length nd")
      case lt: True
      then have le: "idx + 1 \<le> length nd" by simp
      have "length nd < (idx + 1) + length (filter isdigit s)" using Cons.prems True by simp
      with le have "reinsert s nd (idx + 1) (res @ [nd ! idx]) = Inl IndexError" by (rule Cons.IH)
      then show ?thesis using True lt by simp
    next
      case False
      then show ?thesis using True by simp
    qed
  next
    case False
    have "length nd < idx + length (filter isdigit s)" using Cons.prems False by simp
    with Cons.prems(1) have "reinsert s nd idx (res @ [ch]) = Inl IndexError" by (rule Cons.IH)
    then show ?thesis using False by simp
  qed
qed

lemma concat_str_nat:
  "\<forall>d \<in> set ds. d < 10 \<Longrightarrow> concat (map str_nat ds) = map (\<lambda>d. char_of (48 + d)) ds"
  by (induction ds) (simp_all add: str_nat_digit)

lemma stream_string:
  "concat (map str_nat (pseudo_digit_stream key seed n)) =
   map (\<lambda>d. char_of (48 + d)) (pseudo_digit_stream key seed n)"
  using concat_str_nat [of "pseudo_digit_stream key seed n"] pseudo_digit_stream_digits by blast

lemma length_keep_tail: "length (keep_tail ds p) \<le> length ds"
  by (simp add: keep_tail_def)

lemma length_new_digits_eq: "length (new_digits key ds p) = length ds"
  using length_keep_tail [of ds p] by (simp add: new_digits_def length_new_digits)

lemma dnl_new_digits:
  "filter re_digit s \<noteq> [] \<Longrightarrow>
   deterministic_numeric_like (Some s) p key =
     map_sum id Some (reinsert s (new_digits key (filter re_digit s) p) 0 [])"
  by (simp add: deterministic_numeric_like_def Let_def new_digits_def keep_tail_def)

lemma dnl_no_digits:
  "filter re_digit s = [] \<Longrightarrow> deterministic_numeric_like (Some s) p key = Inr (Some s)"
  by (simp add: deterministic_numeric_like_def)

lemma dnl_returns:
  assumes ne: "filter re_digit s \<noteq> []" and dec: "\<forall>c \<in> set s. isdigit c \<longrightarrow> re_digit c"
  shows "deterministic_numeric_like (Some s) p key =
     Inr (Some (map (\<lambda>i. if isdigit (s ! i)
                          then new_digits key (filter re_digit s) p ! length (filter isdigit (take i s))
                          else s ! i) [0..<length s]))"
proof -
  have "0 + length (filter isdigit s) \<le> length (new_digits key (filter re_digit s) p)"
    using dec by (simp add: length_new_digits_eq decimal_only_iff)
  from reinsert_returns [OF this, of "[]"] show ?thesis
    by (simp add: dnl_new_digits [OF ne])
qed

lemma dnl_raises:
  assumes ne: "filter re_digit s \<noteq> []" and sup: "\<exists>c \<in> set s. isdigit c \<and> \<not> re_digit c"
  shows "deterministic_numeric_like (Some s) p key = Inl IndexError"
proof -
  have "\<not> length (filter isdigit s) \<le> length (filter re_digit s)"
    using sup decimal_only_iff [of s] by blast
  then have "length (new_digits key (filter re_digit s) p) < 0 + length (filter isdigit s)"
    by (simp add: length_new_digits_eq)
  from reinsert_raises [OF _ this, of "[]"] show ?thesis
    by (simp add: dnl_new_digits [OF ne])
qed

lemma new_digits_all:
  "\<not> (0 < p \<and> p < int (length ds)) \<Longrightarrow>
   new_digits key ds p = map (\<lambda>d. char_of (48 + d)) (pseudo_digit_stream (encode_utf8 key) ds (length ds))"
  by (auto simp: new_digits_def keep_tail_def stream_string)

lemma digits_before:
  assumes "i < length s" and "P (s ! i)"
  shows "length (filter P (take i s)) < length (filter P s)"
proof -
  have "s = take i s @ s ! i # drop (Suc i) s"
    using assms(1) by (rule id_take_nth_drop)
  then have "filter P s = filter P (take i s) @ s ! i # filter P (drop (Suc i) s)"
    using assms(2) by (metis filter.simps(2) filter_append)
  then show ?thesis by simp
qed

lemma dnl_returns_all:
  assumes ne: "filter re_digit s \<noteq> []" and dec: "\<forall>c \<in> set s. isdigit c \<longrightarrow> re_digit c"
    and k: "\<not> (0 < p \<and> p < int (length (filter re_digit s)))"
  shows "deterministic_numeric_like (Some s) p key =
     Inr (Some (map (\<lambda>i. if isdigit (s ! i)
                          then char_of (48 + pseudo_digit_stream (encode_utf8 key) (filter re_digit s)
                                              (length (filter re_digit s)) ! length (filter isdigit (take i s)))
                          else s ! i) [0..<length s]))"
proof -
  let ?st = "pseudo_digit_stream (encode_utf8 key) (filter re_digit s) (length (filter re_digit s))"
  have len: "length (filter isdigit s) \<le> length ?st"
    using dec by (simp add: length_pseudo_digit_stream decimal_only_iff)
  have "map (\<lambda>i. if isdigit (s ! i)
                 then new_digits key (filter re_digit s) p ! length (filter isdigit (take i s))
                 else s ! i) [0..<length s] =
        map (\<lambda>i. if isdigit (s ! i)
                 then char_of (48 + ?st ! length (filter isdigit (take i s)))
                 else s ! i) [0..<length s]"
  proof (rule map_cong [OF refl])
    fix i assume "i \<in> set [0..<length s]"
    then have i: "i < length s" by simp
    show "(if isdigit (s ! i)
           then new_digits key (filter re_digit s) p ! length (filter isdigit (take i s))
           else s ! i) =
          (if isdigit (s ! i) then char_of (48 + ?st ! length (filter isdigit (take i s))) else s ! i)"
    proof (cases "isdigit (s ! i)")
      case True
      have "length (filter isdigit (take i s)) < length ?st"
        using digits_before [of i s isdigit, OF i True] len by simp
      then show ?thesis using True by (simp add: new_digits_all [OF k])
    next
      case False
      then show ?thesis by simp
    qed
  qed
  then show ?thesis by (simp add: dnl_returns [OF ne dec])
qed

text \<open>
  Claim C1, as amended: when the setting \<open>SHIELD_PSEUDO_KEY\<close> is absent from the
  environment, the key is the built-in default \<open>"CHANGE-ME-IN-ENV"\<close>, and a call that
  leaves the key out pseudonymizes with that default: a value without decimal digits is
  returned as it is, and in a value whose \<open>isdigit\<close> characters are all decimal digits every
  digit position receives the character of \<open>new_digits\<close> computed under the default key, the
  other characters staying in place. No configuration error is raised: the one error of the
  call is the IndexError on a value that holds a decimal digit and a superscript digit,
  which is raised under every key alike.
\<close>

theorem absent_key_defaults:
  assumes "env ''SHIELD_PSEUDO_KEY'' = None"
  shows "PSEUDO_KEY env = ''CHANGE-ME-IN-ENV'' \<and>
   deterministic_numeric_like_default env None preserve_last = Inr None \<and>
   (filter re_digit s = [] \<longrightarrow>
      deterministic_numeric_like_default env (Some s) preserve_last = Inr (Some s)) \<and>
   (filter re_digit s \<noteq> [] \<and> (\<forall>c \<in> set s. isdigit c \<longrightarrow> re_digit c) \<longrightarrow>
      deterministic_numeric_like_default env (Some s) preserve_last =
        Inr (Some (map (\<lambda>i. if isdigit (s ! i)
                             then new_digits ''CHANGE-ME-IN-ENV'' (filter re_digit s) preserve_last
                                    ! length (filter isdigit (take i s))
                             else s ! i) [0..<length s]))) \<and>
   (filter re_digit s \<noteq> [] \<and> (\<exists>c \<in> set s. isdigit c \<and> \<not> re_digit c) \<longrightarrow>
      deterministic_numeric_like_default env (Some s) preserve_last = Inl IndexError \<and>
      (\<forall>key. deterministic_numeric_like (Some s) preserve_last key = Inl IndexError))"
proof -
  have k: "PSEUDO_KEY env = ''CHANGE-ME-IN-ENV''"
    using assms by (simp add: PSEUDO_KEY_def getenv_def)
  have n: "deterministic_numeric_like_default env None preserve_last = Inr None"
    by (simp add: deterministic_numeric_like_default_def deterministic_numeric_like_def)
  show ?thesis
    using k n dnl_no_digits [of s preserve_last "''CHANGE-ME-IN-ENV''"]
      dnl_returns [of s preserve_last "''CHANGE-ME-IN-ENV''"]
      dnl_raises [of s preserve_last]
    by (simp add: deterministic_numeric_like_default_def)
qed

theorem absent_key_defaults_witness:
  "(Map.empty :: string \<rightharpoonup> string) ''SHIELD_PSEUDO_KEY'' = None \<and>
   PSEUDO_KEY Map.empty = ''CHANGE-ME-IN-ENV'' \<and>
   filter re_digit ''n/a'' = [] \<and>
   deterministic_numeric_like_default Map.empty (Some ''n/a'') 4 = Inr (Some ''n/a'') \<and>
   filter re_digit ''563-73-6000'' \<noteq> [] \<and>
   filter isdigit ''563-73-6000'' = filter re_digit ''563-73-6000'' \<and>
   deterministic_numeric_like_default Map.empty (Some ''563-73-6000'') 4 =
     Inr (Some (map (\<lambda>i. if isdigit (''563-73-6000'' ! i)
                          then new_digits ''CHANGE-ME-IN-ENV'' (filter re_digit ''563-73-6000'') 4
                                 ! length (filter isdigit (take i ''563-73-6000''))
                          else ''563-73-6000'' ! i) [0..<length ''563-73-6000''])) \<and>
   filter re_digit [CHR ''1'', CHR 0xB2] \<noteq> [] \<and>
   (\<exists>c \<in> set [CHR ''1'', CHR 0xB2]. isdigit c \<and> \<not> re_digit c) \<and>
   deterministic_numeric_like_default Map.empty (Some [CHR ''1'', CHR 0xB2]) 4 = Inl IndexError"
proof -
  have h: "(Map.empty :: string \<rightharpoonup> string) ''SHIELD_PSEUDO_KEY'' = None" by simp
  have a: "filter re_digit ''n/a'' = []"
    by (simp add: re_digit_def cp_def)
  have b: "filter re_digit ''563-73-6000'' \<noteq> []"
    by (simp add: re_digit_def cp_def)
  have c: "\<forall>c \<in> set ''563-73-6000''. isdigit c \<longrightarrow> re_digit c"
    by (simp add: isdigit_def re_digit_def cp_def)
  have d: "filter re_digit [CHR ''1'', CHR 0xB2] \<noteq> []"
    by (simp add: re_digit_def cp_def)
  have e: "\<exists>c \<in> set [CHR ''1'', CHR 0xB2]. isdigit c \<and> \<not> re_digit c"
    by (simp add: isdigit_def re_digit_def cp_def)
  have f: "filter isdigit ''563-73-6000'' = filter re_digit ''563-73-6000''"
    by (simp add: isdigit_def re_digit_def cp_def)
  show ?thesis
    using h a b c d e f
      absent_key_defaults [OF h, where s = "''n/a''" and preserve_last = 4]
      absent_key_defaults [OF h, where s = "''563-73-6000''" and preserve_last = 4]
      absent_key_defaults [OF h, where s = "[CHR ''1'', CHR 0xB2]" and preserve_last = 4]
    by blast
qed

text \<open>
  The claim as stated (no built-in default key is used when the setting is absent) fails:
  with an empty environment the key is the default, and the value \<open>"1"\<close> is pseudonymized
  to \<open>"8"\<close> under it.
\<close>

theorem default_key_counterexample:
  "PSEUDO_KEY Map.empty = ''CHANGE-ME-IN-ENV'' \<and>
   deterministic_numeric_like_default Map.empty (Some ''1'') 0 = Inr (Some ''8'')"
  by (simp add: PSEUDO_KEY_def getenv_def deterministic_numeric_like_default_def dnl_default_key_1)

text \<open>
  Claim C4, as amended: when \<open>preserve_last\<close> is greater than or equal to the number of
  decimal digits of the value, no digit is kept (\<open>keep\<close> is empty) and the call returns what it
  returns for \<open>preserve_last = 0\<close>: the reinsertion runs over the keyed stream alone, so in a
  value whose \<open>isdigit\<close> characters are all decimal digits the \<open>k\<close>-th digit position holds
  the \<open>k\<close>-th digit of the keyed stream, whatever the digit was, and the other characters
  stay in place; a value without decimal digits is returned as it is.
\<close>

theorem preserve_last_too_large:
  assumes "int (length (filter re_digit s)) \<le> preserve_last"
  shows "keep_tail (filter re_digit s) preserve_last = [] \<and>
   deterministic_numeric_like (Some s) preserve_last key = deterministic_numeric_like (Some s) 0 key \<and>
   (filter re_digit s = [] \<longrightarrow> deterministic_numeric_like (Some s) preserve_last key = Inr (Some s)) \<and>
   (filter re_digit s \<noteq> [] \<longrightarrow>
      deterministic_numeric_like (Some s) preserve_last key =
        map_sum id Some
          (reinsert s
             (map (\<lambda>d. char_of (48 + d))
                (pseudo_digit_stream (encode_utf8 key) (filter re_digit s) (length (filter re_digit s))))
             0 [])) \<and>
   (filter re_digit s \<noteq> [] \<and> (\<forall>c \<in> set s. isdigit c \<longrightarrow> re_digit c) \<longrightarrow>
      deterministic_numeric_like (Some s) preserve_last key =
        Inr (Some (map (\<lambda>i. if isdigit (s ! i)
                             then char_of (48 + pseudo_digit_stream (encode_utf8 key) (filter re_digit s)
                                                 (length (filter re_digit s))
                                               ! length (filter isdigit (take i s)))
                             else s ! i) [0..<length s])))"
proof -
  have k: "\<not> (0 < preserve_last \<and> preserve_last < int (length (filter re_digit s)))"
    using assms by simp
  have c1: "keep_tail (filter re_digit s) preserve_last = []"
    using assms by (auto simp: keep_tail_def)
  have c2: "deterministic_numeric_like (Some s) preserve_last key = deterministic_numeric_like (Some s) 0 key"
    using assms by (auto simp: deterministic_numeric_like_def Let_def)
  have c3: "filter re_digit s = [] \<longrightarrow> deterministic_numeric_like (Some s) preserve_last key = Inr (Some s)"
    by (simp add: dnl_no_digits)
  have c4: "filter re_digit s \<noteq> [] \<longrightarrow>
      deterministic_numeric_like (Some s) preserve_last key =
        map_sum id Some
          (reinsert s
             (map (\<lambda>d. char_of (48 + d))
                (pseudo_digit_stream (encode_utf8 key) (filter re_digit s) (length (filter re_digit s))))
             0 [])"
    by (simp add: dnl_new_digits new_digits_all [OF k])
  have c5: "filter re_digit s \<noteq> [] \<and> (\<forall>c \<in> set s. isdigit c \<longrightarrow> re_digit c) \<longrightarrow>
      deterministic_numeric_like (Some s) preserve_last key =
        Inr (Some (map (\<lambda>i. if isdigit (s ! i)
                             then char_of (48 + pseudo_digit_stream (encode_utf8 key) (filter re_digit s)
                                                 (length (filter re_digit s))
                                               ! length (filter isdigit (take i s)))
                             else s ! i) [0..<length s]))"
    using dnl_returns_all [OF _ _ k, of key] by blast
  from c1 c2 c3 c4 c5 show ?thesis by blast
qed

theorem preserve_last_too_large_witness:
  "int (length (filter re_digit ''563-73-6000'')) \<le> 9 \<and>
   filter re_digit ''563-73-6000'' \<noteq> [] \<and>
   filter isdigit ''563-73-6000'' = filter re_digit ''563-73-6000'' \<and>
   keep_tail (filter re_digit ''563-73-6000'') 9 = [] \<and>
   deterministic_numeric_like (Some ''563-73-6000'') 9 ''k'' =
     Inr (Some (map (\<lambda>i. if isdigit (''563-73-6000'' ! i)
                          then char_of (48 + pseudo_digit_stream (encode_utf8 ''k'')
                                 (filter re_digit ''563-73-6000'') (length (filter re_digit ''563-73-6000''))
                                 ! length (filter isdigit (take i ''563-73-6000'')))
                          else ''563-73-6000'' ! i) [0..<length ''563-73-6000''])) \<and>
   int (length (filter re_digit ''n/a'')) \<le> 9 \<and>
   filter re_digit ''n/a'' = [] \<and>
   deterministic_numeric_like (Some ''n/a'') 9 ''k'' = Inr (Some ''n/a'')"
proof -
  have h: "int (length (filter re_digit ''563-73-6000'')) \<le> 9"
    by (simp add: re_digit_def cp_def)
  have b: "filter re_digit ''563-73-6000'' \<noteq> []"
    by (simp add: re_digit_def cp_def)
  have c: "\<forall>c \<in> set ''563-73-6000''. isdigit c \<longrightarrow> re_digit c"
    by (simp add: isdigit_def re_digit_def cp_def)
  have a: "filter re_digit ''n/a'' = []"
    by (simp add: re_digit_def cp_def)
  have h2: "int (length (filter re_digit ''n/a'')) \<le> 9"
    by (simp add: a)
  have f: "filter isdigit ''563-73-6000'' = filter re_digit ''563-73-6000''"
    by (simp add: isdigit_def re_digit_def cp_def)
  show ?thesis
    using h b c a h2 f preserve_last_too_large [OF h, of "''k''"] preserve_last_too_large [OF h2, of "''k''"]
    by blast
qed

text \<open>
  The claim as stated (the output equals the input when \<open>preserve_last\<close> reaches the digit
  count) fails: \<open>"1"\<close> with \<open>preserve_last = 1\<close> under the default key becomes \<open>"8"\<close>.
\<close>

theorem preserve_all_counterexample:
  "deterministic_numeric_like (Some ''1'') 1 ''CHANGE-ME-IN-ENV'' = Inr (Some ''8'') \<and>
   deterministic_numeric_like (Some ''1'') 1 ''CHANGE-ME-IN-ENV'' \<noteq> Inr (Some ''1'')"
  by (simp add: dnl_default_key_1)

lemma dnl_keep_tail:
  assumes "filter re_digit s = ds" and "0 < preserve_last" and "preserve_last < int (length ds)"
  shows "deterministic_numeric_like (Some s) preserve_last key =
         map_sum id Some (reinsert s
           (concat (map str_nat (pseudo_digit_stream (encode_utf8 key) ds (length ds - nat preserve_last)))
            @ drop (length ds - nat preserve_last) ds) 0 [])"
proof -
  have ne: "ds \<noteq> []" using assms by auto
  have len: "length ds - (length ds - nat preserve_last) = nat preserve_last"
    using assms by auto
  have "length ds - length (drop (length ds - nat preserve_last) ds) = length ds - nat preserve_last"
    using assms by auto
  then show ?thesis
    using assms ne by (simp add: deterministic_numeric_like_def Let_def)
qed

lemma reinsert_short3:
  "isdigit a \<Longrightarrow> isdigit b \<Longrightarrow> isdigit d \<Longrightarrow> reinsert [a, b, d] [x, y] 0 [] = Inl IndexError"
  by simp

text \<open>
  Claim C5 (tail preservation for every input with \<open>0 < preserve_last < d\<close>). On the value
  \<open>"12\u00b2"\<close> with \<open>preserve_last = 1\<close> the digits are \<open>"12"\<close>, so \<open>0 < 1 < 2\<close> holds and
  two new digits are built, but three characters pass \<open>isdigit\<close>: the call raises
  IndexError for every key instead of returning a value ending in the kept digit.
\<close>

theorem tail_preservation_superscript_raises:
  "deterministic_numeric_like (Some [CHR ''1'', CHR ''2'', CHR 0xB2]) 1 key = Inl IndexError"
proof -
  have d: "filter re_digit [CHR ''1'', CHR ''2'', CHR 0xB2] = ''12''"
    by (simp add: re_digit_def cp_def)
  have i: "isdigit CHR ''1''" "isdigit CHR ''2''" by (simp_all add: isdigit_def cp_def)
  obtain c where c: "concat (map str_nat (pseudo_digit_stream (encode_utf8 key) ''12'' (Suc 0))) = [c]"
    using singleton_new_digits by blast
  have "deterministic_numeric_like (Some [CHR ''1'', CHR ''2'', CHR 0xB2]) 1 key =
        map_sum id Some (reinsert [CHR ''1'', CHR ''2'', CHR 0xB2] [c, CHR ''2''] 0 [])"
    using dnl_keep_tail [OF d, of 1 key] c by simp
  then show ?thesis
    using reinsert_short3 [OF i isdigit_sup2(1)] by simp
qed

section \<open>Properties of the reconciliation engine\<close>

subsection \<open>The scan step in terms of the accepted spans\<close>

lemma map_snd_filter_enumerate:
  "map snd (filter (\<lambda>(i, x). P x) (enumerate n xs)) = filter P xs"
  by (induction xs arbitrary: n) auto

lemma overlaps_set:
  "set (map fst (filter (\<lambda>(i, x). P x) (enumerate 0 xs))) = {i. i < length xs \<and> P (xs ! i)}"
  by (auto simp: in_set_enumerate_eq image_iff)

lemma overlaps_nonempty:
  "(map fst (filter (\<lambda>(i, x). P x) (enumerate 0 xs)) \<noteq> []) = (\<exists>x \<in> set xs. P x)"
proof -
  have "(map fst (filter (\<lambda>(i, x). P x) (enumerate 0 xs)) \<noteq> []) =
        (set (map fst (filter (\<lambda>(i, x). P x) (enumerate 0 xs))) \<noteq> {})"
    by (simp only: set_empty)
  also have "\<dots> = (\<exists>i < length xs. P (xs ! i))"
    unfolding overlaps_set by auto
  also have "\<dots> = (\<exists>x \<in> set xs. P x)"
    by (metis in_set_conv_nth)
  finally show ?thesis .
qed

lemma remove_indices:
  assumes "set rm = {i. i < length xs \<and> R (xs ! i)}"
  shows "map snd (filter (\<lambda>(idx, x). idx \<notin> set rm) (enumerate 0 xs)) = filter (\<lambda>x. \<not> R x) xs"
proof -
  have "filter (\<lambda>(idx, x). idx \<notin> set rm) (enumerate 0 xs) = filter (\<lambda>(idx, x). \<not> R x) (enumerate 0 xs)"
    by (rule filter_cong) (auto simp: assms in_set_enumerate_eq)
  then show ?thesis
    using map_snd_filter_enumerate [of "\<lambda>x. \<not> R x" 0 xs] by simp
qed

lemma merge_step_alt:
  "merge_step out c =
     (if \<exists>x \<in> set out. same_span c x then out
      else filter (\<lambda>x. \<not> (clashes c x \<and> span_width x < span_width c)) out @
           (if \<forall>x \<in> set out. clashes c x \<longrightarrow> span_width x < span_width c then [c] else []))"
proof -
  let ?ov = "map fst (filter (\<lambda>(i, x). clashes c x) (enumerate 0 out))"
  let ?rm = "filter (\<lambda>i. \<not> (span_width (out ! i) \<ge> span_width c)) ?ov"
  let ?R = "\<lambda>x. clashes c x \<and> span_width x < span_width c"
  have ov: "set ?ov = {i. i < length out \<and> clashes c (out ! i)}"
    by (rule overlaps_set)
  have rm: "set ?rm = {i. i < length out \<and> ?R (out ! i)}"
    using ov by auto
  have keep: "list_all (\<lambda>i. \<not> (span_width (out ! i) \<ge> span_width c)) ?ov =
              (\<forall>x \<in> set out. clashes c x \<longrightarrow> span_width x < span_width c)"
  proof -
    have "list_all (\<lambda>i. \<not> (span_width (out ! i) \<ge> span_width c)) ?ov =
          (\<forall>i < length out. clashes c (out ! i) \<longrightarrow> span_width (out ! i) < span_width c)"
      unfolding list_all_iff ov by (auto simp: not_le)
    also have "\<dots> = (\<forall>x \<in> set out. clashes c x \<longrightarrow> span_width x < span_width c)"
      by (metis in_set_conv_nth)
    finally show ?thesis .
  qed
  have ne: "(?ov \<noteq> []) = (\<exists>x \<in> set out. clashes c x)"
    by (rule overlaps_nonempty)
  have out': "(if ?rm \<noteq> [] then map snd (filter (\<lambda>(idx, x). idx \<notin> set ?rm) (enumerate 0 out)) else out)
              = filter (\<lambda>x. \<not> ?R x) out"
  proof (cases "?rm = []")
    case True
    then have "set ?rm = {}" by simp
    then have "\<And>i. i < length out \<Longrightarrow> \<not> ?R (out ! i)"
      unfolding rm by blast
    then have "\<forall>x \<in> set out. \<not> ?R x"
      by (metis in_set_conv_nth)
    then have "filter (\<lambda>x. \<not> ?R x) out = out" by simp
    with True show ?thesis by simp
  next
    case False
    then show ?thesis using remove_indices [OF rm] by simp
  qed
  show ?thesis
  proof (cases "\<exists>x \<in> set out. same_span c x")
    case True
    then show ?thesis by (simp add: merge_step_def list_ex_iff)
  next
    case dup: False
    show ?thesis
    proof (cases "\<exists>x \<in> set out. clashes c x")
      case True
      then have "?ov \<noteq> []" using ne by simp
      then show ?thesis
        using dup out' keep by (simp add: merge_step_def list_ex_iff Let_def)
    next
      case False
      then have e: "?ov = []" using ne by simp
      have "filter (\<lambda>x. \<not> ?R x) out = out" using False by simp
      then show ?thesis
        using dup e False by (simp add: merge_step_def list_ex_iff Let_def)
    qed
  qed
qed

lemma same_span_key: "same_span c x = (span_key c = span_key x)"
  by (auto simp: same_span_def span_key_def)

lemma clashes_sym: "clashes c x = clashes x c"
  by (auto simp: clashes_def)

lemma clashes_label: "clashes c x \<Longrightarrow> ent_label x = ent_label c"
  by (simp add: clashes_def)

lemma same_span_label: "same_span c x \<Longrightarrow> ent_label x = ent_label c"
  by (simp add: same_span_def)


lemma merge_step_dup:
  assumes "\<exists>x \<in> set out. same_span c x"
  shows "merge_step out c = out"
  by (subst merge_step_alt) (simp only: assms if_True)

lemma merge_step_keep:
  assumes d: "\<not> (\<exists>x \<in> set out. same_span c x)"
    and k: "\<forall>x \<in> set out. clashes c x \<longrightarrow> span_width x < span_width c"
  shows "merge_step out c = filter (\<lambda>x. \<not> (clashes c x \<and> span_width x < span_width c)) out @ [c]"
  by (subst merge_step_alt) (use d k in auto)

lemma merge_step_drop:
  assumes d: "\<not> (\<exists>x \<in> set out. same_span c x)"
    and k: "\<not> (\<forall>x \<in> set out. clashes c x \<longrightarrow> span_width x < span_width c)"
  shows "merge_step out c = filter (\<lambda>x. \<not> (clashes c x \<and> span_width x < span_width c)) out"
  by (subst merge_step_alt) (use d k in auto)

lemma merge_step_distinct:
  assumes "distinct (map span_key out)"
  shows "distinct (map span_key (merge_step out c))"
proof (cases "\<exists>x \<in> set out. same_span c x")
  case True
  then show ?thesis using assms by (simp add: merge_step_dup)
next
  case False
  then have "span_key c \<notin> span_key ` set out"
    by (auto simp: same_span_key)
  then have nk: "span_key c \<notin> span_key ` set (filter (\<lambda>x. \<not> (clashes c x \<and> span_width x < span_width c)) out)"
    by auto
  have df: "distinct (map span_key (filter (\<lambda>x. \<not> (clashes c x \<and> span_width x < span_width c)) out))"
    using assms by (rule distinct_map_filter)
  show ?thesis
  proof (cases "\<forall>x \<in> set out. clashes c x \<longrightarrow> span_width x < span_width c")
    case True
    show ?thesis
      unfolding merge_step_keep [OF False True] using nk df by simp
  next
    case k: False
    show ?thesis
      unfolding merge_step_drop [OF False k] using df by simp
  qed
qed

lemma merge_step_no_clash:
  assumes "\<forall>x \<in> set out. \<forall>y \<in> set out. x \<noteq> y \<longrightarrow> \<not> clashes x y"
  shows "\<forall>x \<in> set (merge_step out c). \<forall>y \<in> set (merge_step out c). x \<noteq> y \<longrightarrow> \<not> clashes x y"
proof (cases "\<exists>x \<in> set out. same_span c x")
  case True
  then show ?thesis using assms by (simp add: merge_step_dup)
next
  case dup: False
  show ?thesis
  proof (cases "\<forall>x \<in> set out. clashes c x \<longrightarrow> span_width x < span_width c")
    case True
    have "\<forall>x \<in> set (filter (\<lambda>x. \<not> (clashes c x \<and> span_width x < span_width c)) out). \<not> clashes c x"
      using True by auto
    then show ?thesis
      unfolding merge_step_keep [OF dup True] using assms by (auto simp: clashes_sym)
  next
    case False
    show ?thesis
      unfolding merge_step_drop [OF dup False] using assms by auto
  qed
qed

lemma foldl_merge_step_inv:
  assumes "distinct (map span_key acc)"
    and "\<forall>x \<in> set acc. \<forall>y \<in> set acc. x \<noteq> y \<longrightarrow> \<not> clashes x y"
  shows "distinct (map span_key (foldl merge_step acc xs)) \<and>
         (\<forall>x \<in> set (foldl merge_step acc xs). \<forall>y \<in> set (foldl merge_step acc xs). x \<noteq> y \<longrightarrow> \<not> clashes x y)"
  using assms
proof (induction xs arbitrary: acc)
  case Nil
  then show ?case by simp
next
  case (Cons a xs)
  show ?case
    using Cons.IH [OF merge_step_distinct [OF Cons.prems(1)] merge_step_no_clash [OF Cons.prems(2)]]
    by simp
qed

lemma reconciled_pairs:
  assumes "i < j" and "j < length (merge_and_dedupe text batches)"
  shows "\<not> same_span (merge_and_dedupe text batches ! i) (merge_and_dedupe text batches ! j) \<and>
         \<not> clashes (merge_and_dedupe text batches ! i) (merge_and_dedupe text batches ! j)"
proof -
  let ?out = "merge_and_dedupe text batches"
  have inv: "distinct (map span_key ?out)"
    "\<forall>x \<in> set ?out. \<forall>y \<in> set ?out. x \<noteq> y \<longrightarrow> \<not> clashes x y"
    using foldl_merge_step_inv [of "[]"] by (simp_all add: merge_and_dedupe_def)
  have ij: "i < length ?out" "i \<noteq> j" using assms by auto
  have k: "span_key (?out ! i) \<noteq> span_key (?out ! j)"
    using inv(1) ij assms(2) by (simp add: distinct_conv_nth)
  then have "?out ! i \<noteq> ?out ! j" by auto
  then have "\<not> clashes (?out ! i) (?out ! j)"
    using inv(2) ij(1) assms(2) by simp
  with k show ?thesis by (simp add: same_span_key)
qed

lemma merge_step_filter_label:
  "filter (\<lambda>x. ent_label x = l) (merge_step out c) =
     (if ent_label c = l then merge_step (filter (\<lambda>x. ent_label x = l) out) c
      else filter (\<lambda>x. ent_label x = l) out)"
proof (cases "ent_label c = l")
  case True
  have ex: "(\<exists>x \<in> set (filter (\<lambda>x. ent_label x = l) out). same_span c x) = (\<exists>x \<in> set out. same_span c x)"
  proof -
    have sl: "\<And>x. same_span c x \<Longrightarrow> ent_label x = l"
      using True by (simp add: same_span_label)
    show ?thesis unfolding set_filter using sl by blast
  qed
  have al: "(\<forall>x \<in> set (filter (\<lambda>x. ent_label x = l) out). clashes c x \<longrightarrow> span_width x < span_width c) =
            (\<forall>x \<in> set out. clashes c x \<longrightarrow> span_width x < span_width c)"
  proof -
    have cl: "\<And>x. clashes c x \<Longrightarrow> ent_label x = l"
      using True by (simp add: clashes_label)
    show ?thesis unfolding set_filter using cl by blast
  qed
  have fl: "filter (\<lambda>x. ent_label x = l) (filter (\<lambda>x. \<not> (clashes c x \<and> span_width x < span_width c)) out) =
            filter (\<lambda>x. \<not> (clashes c x \<and> span_width x < span_width c)) (filter (\<lambda>x. ent_label x = l) out)"
    by (simp add: conj_commute)
  show ?thesis
    unfolding merge_step_alt [of out] merge_step_alt [of "filter (\<lambda>x. ent_label x = l) out"] ex al
    using True fl by simp
next
  case False
  have "filter (\<lambda>x. ent_label x = l) (filter (\<lambda>x. \<not> (clashes c x \<and> span_width x < span_width c)) out) =
        filter (\<lambda>x. ent_label x = l) out"
  proof -
    have cl: "\<And>x. ent_label x = l \<Longrightarrow> \<not> clashes c x"
      using False by (metis clashes_label)
    have "filter (\<lambda>x. ent_label x = l) (filter (\<lambda>x. \<not> (clashes c x \<and> span_width x < span_width c)) out) =
          filter (\<lambda>x. \<not> (clashes c x \<and> span_width x < span_width c) \<and> ent_label x = l) out"
      by (simp only: filter_filter)
    also have "\<dots> = filter (\<lambda>x. ent_label x = l) out"
      by (rule filter_cong) (use cl in blast)+
    finally show ?thesis .
  qed
  then show ?thesis
    unfolding merge_step_alt [of out] using False by simp
qed

lemma foldl_merge_step_filter_label:
  "filter (\<lambda>x. ent_label x = l) (foldl merge_step acc xs) =
   foldl merge_step (filter (\<lambda>x. ent_label x = l) acc) (filter (\<lambda>x. ent_label x = l) xs)"
  by (induction xs arbitrary: acc) (simp_all add: merge_step_filter_label)

lemma map_filter_normalize_label:
  "filter (\<lambda>x. ent_label x = l) (List.map_filter (normalize_raw text) L) =
   List.map_filter (normalize_raw text)
     (filter (\<lambda>t. case t of RawSpan v lb s e \<Rightarrow> pii_sanitize_label lb = l | BadShape \<Rightarrow> False) L)"
proof (induction L)
  case Nil
  then show ?case by (simp add: List.map_filter_simps)
next
  case (Cons t L)
  then show ?case
    by (cases t) (auto simp: List.map_filter_simps normalize_raw_def split: option.splits)
qed

lemma flatten_filter_label:
  "filter (\<lambda>x. ent_label x = l) (flatten text batches) =
   flatten text (map (filter (\<lambda>t. case t of RawSpan v lb s e \<Rightarrow> pii_sanitize_label lb = l | BadShape \<Rightarrow> False)) batches)"
  by (induction batches) (simp_all add: flatten_def map_filter_normalize_label)

lemma label_independence:
  "filter (\<lambda>x. ent_label x = l) (merge_and_dedupe text batches) =
   merge_and_dedupe text
     (map (filter (\<lambda>t. case t of RawSpan v lb s e \<Rightarrow> pii_sanitize_label lb = l | BadShape \<Rightarrow> False)) batches)"
  by (simp add: merge_and_dedupe_def foldl_merge_step_filter_label filter_sort flatten_filter_label)

lemma map_filter_well_formed:
  "List.map_filter (normalize_raw text)
     (filter (\<lambda>t. case t of RawSpan v lb (Some s) (Some e) \<Rightarrow> within text s e | _ \<Rightarrow> False) L) =
   List.map_filter (normalize_raw text) L"
proof (induction L)
  case Nil
  then show ?case by simp
next
  case (Cons t L)
  then show ?case
    by (cases t) (auto simp: List.map_filter_simps normalize_raw_def split: option.splits)
qed

lemma malformed_dropped:
  "merge_and_dedupe text
     (map (filter (\<lambda>t. case t of RawSpan v lb (Some s) (Some e) \<Rightarrow> within text s e | _ \<Rightarrow> False)) batches) =
   merge_and_dedupe text batches"
proof -
  have "flatten text (map (filter (\<lambda>t. case t of RawSpan v lb (Some s) (Some e) \<Rightarrow> within text s e | _ \<Rightarrow> False)) batches)
        = flatten text batches"
    by (induction batches) (simp_all add: flatten_def map_filter_well_formed)
  then show ?thesis by (simp add: merge_and_dedupe_def)
qed

lemma set_merge_step: "set (merge_step out c) \<subseteq> insert c (set out)"
  by (subst merge_step_alt) auto

lemma same_span_clashes:
  "ent_start c < ent_end c \<Longrightarrow> same_span c x \<Longrightarrow> clashes c x \<and> span_width x = span_width c"
  by (auto simp: same_span_def clashes_def span_width_def)

lemma merge_step_displaced:
  assumes sub: "set acc \<subseteq> P"
    and J: "\<forall>c \<in> P. c \<in> set acc \<or> (\<exists>x \<in> P. x \<noteq> c \<and> clashes c x \<and> span_width c \<le> span_width x)"
    and valid: "ent_start a < ent_end a"
  shows "\<forall>c \<in> insert a P. c \<in> set (merge_step acc a) \<or>
           (\<exists>x \<in> insert a P. x \<noteq> c \<and> clashes c x \<and> span_width c \<le> span_width x)"
proof
  fix c assume cP: "c \<in> insert a P"
  show "c \<in> set (merge_step acc a) \<or>
        (\<exists>x \<in> insert a P. x \<noteq> c \<and> clashes c x \<and> span_width c \<le> span_width x)"
  proof (cases "c \<in> set (merge_step acc a)")
    case True
    then show ?thesis by simp
  next
    case notin: False
    show ?thesis
    proof (cases "\<exists>x \<in> set acc. same_span a x")
      case dup: True
      then have eq: "merge_step acc a = acc" by (rule merge_step_dup)
      show ?thesis
      proof (cases "c = a")
        case True
        from dup obtain x where x: "x \<in> set acc" "same_span a x" by blast
        have "x \<noteq> a" using x(1) notin eq True by auto
        moreover have "clashes a x \<and> span_width x = span_width a"
          using same_span_clashes [OF valid x(2)] .
        ultimately show ?thesis using x(1) sub True by force
      next
        case False
        then have "c \<in> P" using cP by simp
        then show ?thesis using J notin eq by auto
      qed
    next
      case nodup: False
      show ?thesis
      proof (cases "\<forall>x \<in> set acc. clashes a x \<longrightarrow> span_width x < span_width a")
        case keep: True
        have eq: "merge_step acc a =
            filter (\<lambda>x. \<not> (clashes a x \<and> span_width x < span_width a)) acc @ [a]"
          by (rule merge_step_keep [OF nodup keep])
        have ca: "c \<noteq> a" using notin eq by auto
        then have cP': "c \<in> P" using cP by simp
        show ?thesis
        proof (cases "c \<in> set acc")
          case True
          then have "clashes a c \<and> span_width c < span_width a"
            using notin eq by auto
          then have "a \<noteq> c \<and> clashes c a \<and> span_width c \<le> span_width a"
            using ca by (auto simp: clashes_sym)
          then show ?thesis by blast
        next
          case False
          then show ?thesis using J cP' by auto
        qed
      next
        case drop: False
        have eq: "merge_step acc a =
            filter (\<lambda>x. \<not> (clashes a x \<and> span_width x < span_width a)) acc"
          by (rule merge_step_drop [OF nodup drop])
        show ?thesis
        proof (cases "c = a")
          case True
          from drop obtain x where x: "x \<in> set acc" "clashes a x" "\<not> span_width x < span_width a"
            by blast
          have "x \<noteq> a"
          proof
            assume "x = a"
            then have "same_span a x" by (simp add: same_span_def)
            with x(1) nodup show False by blast
          qed
          then show ?thesis using x sub True by force
        next
          case ca: False
          then have cP': "c \<in> P" using cP by simp
          show ?thesis
          proof (cases "c \<in> set acc")
            case True
            then have "clashes a c \<and> span_width c < span_width a"
              using notin eq by auto
            then have "a \<noteq> c \<and> clashes c a \<and> span_width c \<le> span_width a"
              using ca by (auto simp: clashes_sym)
            then show ?thesis by blast
          next
            case False
            then show ?thesis using J cP' by auto
          qed
        qed
      qed
    qed
  qed
qed

lemma foldl_merge_step_displaced:
  assumes "set acc \<subseteq> P"
    and "\<forall>c \<in> P. c \<in> set acc \<or> (\<exists>x \<in> P. x \<noteq> c \<and> clashes c x \<and> span_width c \<le> span_width x)"
    and "\<forall>a \<in> set xs. ent_start a < ent_end a"
  shows "\<forall>c \<in> P \<union> set xs. c \<in> set (foldl merge_step acc xs) \<or>
           (\<exists>x \<in> P \<union> set xs. x \<noteq> c \<and> clashes c x \<and> span_width c \<le> span_width x)"
  using assms
proof (induction xs arbitrary: acc P)
  case Nil
  then show ?case by simp
next
  case (Cons a xs)
  have v: "ent_start a < ent_end a" using Cons.prems(3) by simp
  have s': "set (merge_step acc a) \<subseteq> insert a P"
    using set_merge_step [of acc a] Cons.prems(1) by auto
  have J': "\<forall>c \<in> insert a P. c \<in> set (merge_step acc a) \<or>
           (\<exists>x \<in> insert a P. x \<noteq> c \<and> clashes c x \<and> span_width c \<le> span_width x)"
    by (rule merge_step_displaced [OF Cons.prems(1) Cons.prems(2) v])
  have vs: "\<forall>a \<in> set xs. ent_start a < ent_end a" using Cons.prems(3) by simp
  have "insert a P \<union> set xs = P \<union> set (a # xs)" by auto
  then show ?case
    using Cons.IH [OF s' J' vs] by simp
qed

lemma flatten_valid: "x \<in> set (flatten text batches) \<Longrightarrow> ent_start x < ent_end x"
proof -
  have inner: "x \<in> set (List.map_filter (normalize_raw text) L) \<Longrightarrow> ent_start x < ent_end x" for L
  proof (induction L)
    case Nil
    then show ?case by (simp add: List.map_filter_simps)
  next
    case (Cons t L)
    then show ?case
      by (cases t) (auto simp: List.map_filter_simps normalize_raw_def within_def split: option.splits if_splits)
  qed
  assume "x \<in> set (flatten text batches)"
  then show ?thesis using inner by (auto simp: flatten_def)
qed

lemma displaced_only_by_wider:
  assumes "c \<in> set (flatten text batches)"
  shows "c \<in> set (merge_and_dedupe text batches) \<or>
         (\<exists>x \<in> set (flatten text batches). x \<noteq> c \<and> clashes c x \<and> span_width c \<le> span_width x)"
proof -
  let ?xs = "sort_key (\<lambda>x. (ent_start x, - ent_end x)) (flatten text batches)"
  have v: "\<forall>a \<in> set ?xs. ent_start a < ent_end a"
    using flatten_valid by auto
  have "\<forall>c \<in> {} \<union> set ?xs. c \<in> set (foldl merge_step [] ?xs) \<or>
           (\<exists>x \<in> {} \<union> set ?xs. x \<noteq> c \<and> clashes c x \<and> span_width c \<le> span_width x)"
    by (rule foldl_merge_step_displaced) (use v in simp_all)
  then show ?thesis
    using assms by (simp add: merge_and_dedupe_def)
qed

subsection \<open>Concrete reconciliations\<close>

lemma merge_example_overlap:
  "merge_and_dedupe ''John Smith lives here''
     [[RawSpan ''John'' ''PERSON'' (Some 0) (Some 4)], [RawSpan ''John Smit'' ''PERSON'' (Some 0) (Some 9)]]
   = [(''John Smit'', ''PERSON'', 0, 9)]"
  by code_simp

lemma merge_example_cross_label:
  "merge_and_dedupe ''John Smith lives here''
     [[RawSpan ''John Smit'' ''PERSON'' (Some 0) (Some 9), RawSpan ''n S'' ''DATE'' (Some 3) (Some 6)]]
   = [(''John Smit'', ''PERSON'', 0, 9), (''n S'', ''DATE'', 3, 6)]"
  by code_simp

lemma chain_value:
  "merge_and_dedupe ''0123456789abc''
     [[RawSpan ''012345678'' ''L'' (Some 0) (Some 9), RawSpan ''89ab'' ''L'' (Some 8) (Some 12),
       RawSpan ''bc'' ''L'' (Some 11) (Some 13)]]
   = [(''012345678'', ''L'', 0, 9), (''bc'', ''L'', 11, 13)]"
  by code_simp

lemma rejected_value:
  "merge_and_dedupe ''0123456789''
     [[RawSpan ''0123'' ''L'' (Some 0) (Some 4), RawSpan ''x'' ''X'' (Some 5) (Some 3)]] =
   [(''0123'', ''L'', 0, 4)]"
  by code_simp

lemma accepted_value:
  "merge_and_dedupe ''0123456789'' [[RawSpan ''0123'' ''L'' (Some 0) (Some 4)]] = [(''0123'', ''L'', 0, 4)]"
  by code_simp


text \<open>
  Claim C3, as amended: in the list returned by \<open>_merge_and_dedupe\<close> no two members have
  identical \<open>(start, end, label)\<close> and no two members with the same label intersect; a valid
  candidate is absent from the result only if another valid candidate of the same label
  intersects it and is at least as wide; spans are resolved label by label, the members of
  one label being exactly what reconciling that label's candidates alone returns. In
  particular \<open>(0,4,PERSON)\<close> and \<open>(0,9,PERSON)\<close> leave \<open>(0,9,PERSON)\<close>, and \<open>(0,9,PERSON)\<close> and
  \<open>(3,6,DATE)\<close> are both returned.
\<close>

theorem merge_and_dedupe_reconciled:
  "(\<forall>i j. i < j \<and> j < length (merge_and_dedupe text batches) \<longrightarrow>
       \<not> same_span (merge_and_dedupe text batches ! i) (merge_and_dedupe text batches ! j) \<and>
       \<not> clashes (merge_and_dedupe text batches ! i) (merge_and_dedupe text batches ! j)) \<and>
   (\<forall>c \<in> set (flatten text batches).
       c \<in> set (merge_and_dedupe text batches) \<or>
       (\<exists>x \<in> set (flatten text batches). x \<noteq> c \<and> clashes c x \<and> span_width c \<le> span_width x)) \<and>
   (\<forall>l. filter (\<lambda>x. ent_label x = l) (merge_and_dedupe text batches) =
        merge_and_dedupe text
          (map (filter (\<lambda>t. case t of RawSpan v lb s e \<Rightarrow> pii_sanitize_label lb = l | BadShape \<Rightarrow> False))
             batches)) \<and>
   merge_and_dedupe ''John Smith lives here''
     [[RawSpan ''John'' ''PERSON'' (Some 0) (Some 4)], [RawSpan ''John Smit'' ''PERSON'' (Some 0) (Some 9)]]
     = [(''John Smit'', ''PERSON'', 0, 9)] \<and>
   merge_and_dedupe ''John Smith lives here''
     [[RawSpan ''John Smit'' ''PERSON'' (Some 0) (Some 9), RawSpan ''n S'' ''DATE'' (Some 3) (Some 6)]]
     = [(''John Smit'', ''PERSON'', 0, 9), (''n S'', ''DATE'', 3, 6)]"
  using reconciled_pairs [of _ _ "text" batches] displaced_only_by_wider [of _ "text" batches]
    label_independence [of _ "text" batches] merge_example_overlap merge_example_cross_label
  by blast

theorem merge_and_dedupe_reconciled_witness:
  "(0::nat) < 1 \<and> 1 < length (merge_and_dedupe ''0123456789abc''
     [[RawSpan ''012345678'' ''L'' (Some 0) (Some 9), RawSpan ''89ab'' ''L'' (Some 8) (Some 12),
       RawSpan ''bc'' ''L'' (Some 11) (Some 13)]]) \<and>
   \<not> clashes (''012345678'', ''L'', 0, 9) (''bc'', ''L'', 11, 13) \<and>
   (''89ab'', ''L'', 8, 12) \<in> set (flatten ''0123456789abc''
     [[RawSpan ''012345678'' ''L'' (Some 0) (Some 9), RawSpan ''89ab'' ''L'' (Some 8) (Some 12),
       RawSpan ''bc'' ''L'' (Some 11) (Some 13)]]) \<and>
   (\<exists>x \<in> set (flatten ''0123456789abc''
     [[RawSpan ''012345678'' ''L'' (Some 0) (Some 9), RawSpan ''89ab'' ''L'' (Some 8) (Some 12),
       RawSpan ''bc'' ''L'' (Some 11) (Some 13)]]).
      x \<noteq> (''89ab'', ''L'', 8, 12) \<and> clashes (''89ab'', ''L'', 8, 12) x \<and>
      span_width (''89ab'', ''L'', 8, 12) \<le> span_width x)"
proof -
  let ?T = "''0123456789abc''"
  let ?B = "[[RawSpan ''012345678'' ''L'' (Some 0) (Some 9), RawSpan ''89ab'' ''L'' (Some 8) (Some 12),
       RawSpan ''bc'' ''L'' (Some 11) (Some 13)]]"
  have len: "(0::nat) < 1 \<and> 1 < length (merge_and_dedupe ?T ?B)"
    by (simp add: chain_value)
  have fl: "flatten ?T ?B = [(''012345678'', ''L'', 0, 9), (''89ab'', ''L'', 8, 12), (''bc'', ''L'', 11, 13)]"
    by code_simp
  have mem: "(''89ab'', ''L'', 8, 12) \<in> set (flatten ?T ?B)"
    by (simp add: fl)
  have out: "(''89ab'', ''L'', 8, 12) \<notin> set (merge_and_dedupe ?T ?B)"
    by (simp add: chain_value)
  from merge_and_dedupe_reconciled [of ?T ?B]
  have pairs: "\<forall>i j. i < j \<and> j < length (merge_and_dedupe ?T ?B) \<longrightarrow>
       \<not> clashes (merge_and_dedupe ?T ?B ! i) (merge_and_dedupe ?T ?B ! j)"
    and disp: "\<forall>c \<in> set (flatten ?T ?B). c \<in> set (merge_and_dedupe ?T ?B) \<or>
       (\<exists>x \<in> set (flatten ?T ?B). x \<noteq> c \<and> clashes c x \<and> span_width c \<le> span_width x)"
    by blast+
  have "\<not> clashes (merge_and_dedupe ?T ?B ! 0) (merge_and_dedupe ?T ?B ! 1)"
    using pairs len by blast
  then have nc: "\<not> clashes (''012345678'', ''L'', 0, 9) (''bc'', ''L'', 11, 13)"
    by (simp add: chain_value)
  have "\<exists>x \<in> set (flatten ?T ?B). x \<noteq> (''89ab'', ''L'', 8, 12) \<and> clashes (''89ab'', ''L'', 8, 12) x \<and>
      span_width (''89ab'', ''L'', 8, 12) \<le> span_width x"
    using disp mem out by blast
  with len nc mem show ?thesis by blast
qed

text \<open>
  The claim as stated (of two intersecting same-label candidates the survivor is the widest)
  fails: with \<open>(0,9)\<close>, \<open>(8,12)\<close> and \<open>(11,13)\<close> under one label, \<open>(8,12)\<close> loses to \<open>(0,9)\<close>, and
  \<open>(11,13)\<close>, which intersects \<open>(8,12)\<close> and is narrower, is returned.
\<close>

theorem widest_survives_counterexample:
  "merge_and_dedupe ''0123456789abc''
     [[RawSpan ''012345678'' ''L'' (Some 0) (Some 9), RawSpan ''89ab'' ''L'' (Some 8) (Some 12),
       RawSpan ''bc'' ''L'' (Some 11) (Some 13)]]
   = [(''012345678'', ''L'', 0, 9), (''bc'', ''L'', 11, 13)] \<and>
   clashes (''89ab'', ''L'', 8, 12) (''bc'', ''L'', 11, 13) \<and>
   span_width (''bc'', ''L'', 11, 13) < span_width (''89ab'', ''L'', 8, 12)"
  by (simp add: chain_value clashes_def span_width_def)

text \<open>
  Claim C8, as amended: the reconciliation operation does not raise on a malformed item of a
  batch. Every item that does not unpack into four parts, whose offsets do not convert, or
  whose offsets fail \<open>0 <= start < end <= len(text)\<close> is silently dropped, and the result is
  the one obtained without it; no count of rejected spans is kept or returned, the return
  value being the list of spans alone.
\<close>

theorem malformed_spans_dropped:
  "merge_and_dedupe text batches =
   merge_and_dedupe text
     (map (filter (\<lambda>t. case t of RawSpan v lb (Some s) (Some e) \<Rightarrow> within text s e | _ \<Rightarrow> False)) batches)"
  by (simp add: malformed_dropped)

text \<open>
  The claim as stated (the number of rejected spans is returned alongside the result) fails:
  the call with the raw span \<open>(5,3,"X")\<close> in the batch and the call without it return the same
  value, the single accepted span, so the return value carries no rejection count.
\<close>

theorem rejection_count_counterexample:
  "merge_and_dedupe ''0123456789''
     [[RawSpan ''0123'' ''L'' (Some 0) (Some 4), RawSpan ''x'' ''X'' (Some 5) (Some 3)]] =
   merge_and_dedupe ''0123456789'' [[RawSpan ''0123'' ''L'' (Some 0) (Some 4)]] \<and>
   merge_and_dedupe ''0123456789''
     [[RawSpan ''0123'' ''L'' (Some 0) (Some 4), RawSpan ''x'' ''X'' (Some 5) (Some 3)]] =
   [(''0123'', ''L'', 0, 4)]"
  by (simp add: rejected_value accepted_value)

section \<open>Properties of the review loop\<close>

subsection \<open>The invariant of \<open>dedupe_overlaps\<close>\<close>

lemma same_triple_eq: "same_triple e x = (span_triple e = span_triple x)"
  by (auto simp: same_triple_def span_triple_def)

lemma span_clash_sym: "span_clash e x = span_clash x e"
  by (auto simp: span_clash_def)

lemma py_max_mem: "py_max f x xs \<in> set (x # xs)"
proof -
  have "foldl (\<lambda>m y. if f y > f m then y else m) x xs \<in> set (x # xs)"
  proof (induction xs arbitrary: x)
    case Nil
    then show ?case by simp
  next
    case (Cons a xs)
    have "foldl (\<lambda>m y. if f y > f m then y else m) (if f a > f x then a else x) xs
          \<in> set ((if f a > f x then a else x) # xs)"
      by (rule Cons.IH)
    then show ?case by (auto split: if_splits)
  qed
  then show ?thesis by (simp add: py_max_def)
qed

lemma dedupe_step_inv:
  assumes d: "distinct (map span_triple out)"
    and nc: "\<forall>x \<in> set out. \<forall>y \<in> set out. x \<noteq> y \<longrightarrow> \<not> span_clash x y"
  shows "distinct (map span_triple (dedupe_step out e)) \<and>
         (\<forall>x \<in> set (dedupe_step out e). \<forall>y \<in> set (dedupe_step out e). x \<noteq> y \<longrightarrow> \<not> span_clash x y)"
proof (cases "\<exists>x \<in> set out. same_triple e x")
  case True
  then have "dedupe_step out e = out" by (simp add: dedupe_step_def list_ex_iff)
  then show ?thesis using d nc by simp
next
  case nodup: False
  then have ek: "span_triple e \<notin> span_triple ` set out" by (auto simp: same_triple_eq)
  let ?cl = "filter (span_clash e) out"
  let ?rest = "filter (\<lambda>x. x \<notin> set ?cl) out"
  have rest_set: "set ?rest = {x \<in> set out. \<not> span_clash e x}" by auto
  have drest: "distinct (map span_triple ?rest)" using d by (rule distinct_map_filter)
  have inj: "inj_on span_triple (set out)" using d by (simp add: distinct_map)
  show ?thesis
  proof (cases "?cl = []")
    case True
    then have eq: "dedupe_step out e = out @ [e]"
      using nodup by (simp add: dedupe_step_def list_ex_iff)
    have "\<forall>x \<in> set out. \<not> span_clash e x" using True by (simp add: filter_empty_conv)
    then show ?thesis
      unfolding eq using d nc ek by (auto simp: span_clash_sym)
  next
    case False
    define w where "w = py_max (\<lambda>z. sp_end z - sp_start z) e ?cl"
    define rest where "rest = ?rest"
    have eq: "dedupe_step out e = rest @ [w]"
      using nodup False by (simp add: dedupe_step_def list_ex_iff Let_def w_def rest_def)
    have wm: "w = e \<or> w \<in> set ?cl"
      using py_max_mem [of "\<lambda>z. sp_end z - sp_start z" e ?cl] by (simp add: w_def)
    have rs: "set rest = {x \<in> set out. \<not> span_clash e x}"
      using rest_set by (simp add: rest_def)
    have dr: "distinct (map span_triple rest)" using drest by (simp add: rest_def)
    have r: "\<forall>x \<in> set rest. \<forall>y \<in> set rest. x \<noteq> y \<longrightarrow> \<not> span_clash x y"
      using nc rs by simp
    have sub: "set rest \<subseteq> set out" using rs by blast
    show ?thesis
    proof (cases "w = e")
      case True
      have k: "span_triple e \<notin> span_triple ` set rest" using ek sub by blast
      have c: "\<forall>x \<in> set rest. \<not> span_clash e x \<and> \<not> span_clash x e"
        using rs span_clash_sym by blast
      have d2: "distinct (map span_triple (rest @ [e]))" using dr k by simp
      have p2: "\<forall>x \<in> set (rest @ [e]). \<forall>y \<in> set (rest @ [e]). x \<noteq> y \<longrightarrow> \<not> span_clash x y"
        using r c by simp
      show ?thesis unfolding eq True using d2 p2 by (rule conjI)
    next
      case we: False
      then have wcl: "w \<in> set ?cl" using wm by simp
      then have wout: "w \<in> set out" and wc: "span_clash e w" by simp_all
      have wrest: "w \<notin> set rest" using wc rs by simp
      have k: "span_triple w \<notin> span_triple ` set rest"
      proof
        assume "span_triple w \<in> span_triple ` set rest"
        then obtain x where x: "span_triple w = span_triple x" "x \<in> set rest" by (rule imageE)
        from x(2) sub have "x \<in> set out" by blast
        with inj wout x(1) have "x = w" by (metis inj_onD)
        with x(2) wrest show False by simp
      qed
      have c: "\<forall>x \<in> set rest. \<not> span_clash w x \<and> \<not> span_clash x w"
      proof
        fix x assume x: "x \<in> set rest"
        then have xo: "x \<in> set out" using sub by blast
        have ne: "x \<noteq> w" using x wrest by blast
        have "\<not> span_clash w x" using nc xo wout ne by metis
        moreover have "\<not> span_clash x w" using nc xo wout ne by metis
        ultimately show "\<not> span_clash w x \<and> \<not> span_clash x w" by (rule conjI)
      qed
      have d2: "distinct (map span_triple (rest @ [w]))" using dr k by simp
      have p2: "\<forall>x \<in> set (rest @ [w]). \<forall>y \<in> set (rest @ [w]). x \<noteq> y \<longrightarrow> \<not> span_clash x y"
        using r c by simp
      show ?thesis unfolding eq using d2 p2 by (rule conjI)
    qed
  qed
qed

lemma foldl_dedupe_step_inv:
  assumes "distinct (map span_triple acc)"
    and "\<forall>x \<in> set acc. \<forall>y \<in> set acc. x \<noteq> y \<longrightarrow> \<not> span_clash x y"
  shows "distinct (map span_triple (foldl dedupe_step acc xs)) \<and>
         (\<forall>x \<in> set (foldl dedupe_step acc xs). \<forall>y \<in> set (foldl dedupe_step acc xs). x \<noteq> y \<longrightarrow> \<not> span_clash x y)"
  using assms
proof (induction xs arbitrary: acc)
  case Nil
  then show ?case by simp
next
  case (Cons a xs)
  have s: "distinct (map span_triple (dedupe_step acc a))"
    "\<forall>x \<in> set (dedupe_step acc a). \<forall>y \<in> set (dedupe_step acc a). x \<noteq> y \<longrightarrow> \<not> span_clash x y"
    using dedupe_step_inv [OF Cons.prems] by blast+
  show ?case using Cons.IH [OF s] by simp
qed

lemma dedupe_overlaps_pairs:
  assumes "i < j" and "j < length (dedupe_overlaps ents)"
  shows "\<not> same_triple (dedupe_overlaps ents ! i) (dedupe_overlaps ents ! j) \<and>
         \<not> span_clash (dedupe_overlaps ents ! i) (dedupe_overlaps ents ! j)"
proof -
  let ?out = "dedupe_overlaps ents"
  have inv: "distinct (map span_triple ?out)"
    "\<forall>x \<in> set ?out. \<forall>y \<in> set ?out. x \<noteq> y \<longrightarrow> \<not> span_clash x y"
    using foldl_dedupe_step_inv [of "[]"] by (simp_all add: dedupe_overlaps_def)
  have ij: "i < length ?out" "i \<noteq> j" using assms by auto
  have k: "span_triple (?out ! i) \<noteq> span_triple (?out ! j)"
    using inv(1) ij assms(2) by (simp add: distinct_conv_nth)
  then have "?out ! i \<noteq> ?out ! j" by auto
  then have "\<not> span_clash (?out ! i) (?out ! j)"
    using inv(2) ij(1) assms(2) by simp
  with k show ?thesis by (simp add: same_triple_eq)
qed

lemma review_loop_returns:
  "length es \<le> length cmds \<Longrightarrow> \<exists>res. review_loop t es cmds final = Inr res"
proof (induction t es cmds final rule: review_loop.induct)
  case (1 t cmds final)
  then show ?case by simp
next
  case (2 t e es final)
  then show ?case by simp
next
  case (3 t e es cmd cmds final)
  then show ?case
    by (cases cmd) (auto split: prod.splits)
qed

lemma length_dedupe_step: "length (dedupe_step out e) \<le> Suc (length out)"
proof -
  have "length (filter (\<lambda>x. x \<notin> set (filter (span_clash e) out)) out) \<le> length out"
    by (rule length_filter_le)
  then show ?thesis
    unfolding dedupe_step_def Let_def by (simp del: set_filter filter_filter)
qed

lemma length_foldl_dedupe_step: "length (foldl dedupe_step acc xs) \<le> length acc + length xs"
proof (induction xs arbitrary: acc)
  case Nil
  then show ?case by simp
next
  case (Cons a xs)
  have "length (foldl dedupe_step (dedupe_step acc a) xs) \<le> length (dedupe_step acc a) + length xs"
    by (rule Cons.IH)
  also have "\<dots> \<le> Suc (length acc) + length xs"
    using length_dedupe_step [of acc a] by simp
  finally show ?case by simp
qed

lemma length_dedupe_overlaps: "length (dedupe_overlaps ents) \<le> length ents"
  using length_foldl_dedupe_step [of "[]" "sort_key (\<lambda>x. (sp_start x, - sp_end x)) ents"]
  by (simp add: dedupe_overlaps_def)

lemma length_map_filter: "length (List.map_filter f xs) \<le> length xs"
  by (induction xs) (simp_all add: List.map_filter_simps split: option.splits)

lemma collect_user_feedback_returns:
  assumes "length entities \<le> length cmds"
  shows "\<exists>r. collect_user_feedback t entities cmds = Inr r"
proof -
  let ?clean = "dedupe_overlaps (List.map_filter (normalize_entity t) entities)"
  have "length ?clean \<le> length entities"
    using length_dedupe_overlaps [of "List.map_filter (normalize_entity t) entities"]
      length_map_filter [of "normalize_entity t" entities] by simp
  then have "length ?clean \<le> length cmds" using assms by simp
  then obtain res where "review_loop t ?clean cmds [] = Inr res"
    using review_loop_returns by blast
  then show ?thesis by (simp add: collect_user_feedback_def)
qed

lemma collect_user_feedback_pairs:
  assumes r: "collect_user_feedback t entities cmds = Inr res" and ij: "i < j" "j < length res"
  shows "\<not> same_triple (res ! i) (res ! j) \<and> \<not> span_clash (res ! i) (res ! j)"
proof -
  obtain final where "res = dedupe_overlaps final"
    using r by (cases "review_loop t (dedupe_overlaps (List.map_filter (normalize_entity t) entities)) cmds []")
      (auto simp: collect_user_feedback_def)
  then show ?thesis using dedupe_overlaps_pairs ij by blast
qed

lemma review_example:
  "collect_user_feedback ''0123456789''
     [RawEntity None ''l'' 0 4, RawEntity (Some ''x'') ''l'' 5 9, RawEntity None ''m'' 5 8]
     [Confirm, Edit 2 6, Confirm]
   = Inr [\<lparr>sp_start = 2, sp_end = 6, sp_label = ''L'', sp_line_number = 1,
            sp_left = 2, sp_right = 6, sp_value = ''2345''\<rparr>,
          \<lparr>sp_start = 5, sp_end = 8, sp_label = ''M'', sp_line_number = 1,
            sp_left = 5, sp_right = 8, sp_value = ''567''\<rparr>]"
  by code_simp

text \<open>
  Claim C10: whatever the text, the entities and the commands typed, the list returned by
  \<open>collect_user_feedback\<close> holds no two members with identical \<open>(start, end, label)\<close> and no
  two intersecting members with the same label, \<open>dedupe_overlaps\<close> being applied to the
  reviewed list before it is returned; and the call returns whenever a line can be read
  for each entity (otherwise \<open>input()\<close> raises EOFError).
\<close>

theorem collect_user_feedback_no_overlap:
  "(collect_user_feedback text entities cmds = Inr res \<longrightarrow>
      (\<forall>i j. i < j \<and> j < length res \<longrightarrow>
         \<not> same_triple (res ! i) (res ! j) \<and> \<not> span_clash (res ! i) (res ! j))) \<and>
   (length entities \<le> length cmds \<longrightarrow> (\<exists>r. collect_user_feedback text entities cmds = Inr r))"
  using collect_user_feedback_pairs [of "text" entities cmds res]
    collect_user_feedback_returns [of entities cmds "text"]
  by blast

theorem collect_user_feedback_no_overlap_witness:
  "collect_user_feedback ''0123456789''
     [RawEntity None ''l'' 0 4, RawEntity (Some ''x'') ''l'' 5 9, RawEntity None ''m'' 5 8]
     [Confirm, Edit 2 6, Confirm]
   = Inr [\<lparr>sp_start = 2, sp_end = 6, sp_label = ''L'', sp_line_number = 1,
            sp_left = 2, sp_right = 6, sp_value = ''2345''\<rparr>,
          \<lparr>sp_start = 5, sp_end = 8, sp_label = ''M'', sp_line_number = 1,
            sp_left = 5, sp_right = 8, sp_value = ''567''\<rparr>] \<and>
   (0::nat) < 1 \<and>
   1 < length [\<lparr>sp_start = 2, sp_end = 6, sp_label = ''L'', sp_line_number = 1,
            sp_left = 2, sp_right = 6, sp_value = ''2345''\<rparr>,
          \<lparr>sp_start = 5, sp_end = 8, sp_label = ''M'', sp_line_number = 1,
            sp_left = 5, sp_right = 8, sp_value = ''567''\<rparr>] \<and>
   \<not> span_clash \<lparr>sp_start = 2, sp_end = 6, sp_label = ''L'', sp_line_number = 1,
            sp_left = 2, sp_right = 6, sp_value = ''2345''\<rparr>
          \<lparr>sp_start = 5, sp_end = 8, sp_label = ''M'', sp_line_number = 1,
            sp_left = 5, sp_right = 8, sp_value = ''567''\<rparr> \<and>
   length [RawEntity None ''l'' 0 4, RawEntity (Some ''x'') ''l'' 5 9, RawEntity None ''m'' 5 8]
     \<le> length [Confirm, Edit 2 6, Confirm]"
proof -
  let ?E = "[RawEntity None ''l'' 0 4, RawEntity (Some ''x'') ''l'' 5 9, RawEntity None ''m'' 5 8]"
  let ?C = "[Confirm, Edit 2 6, Confirm]"
  let ?a = "\<lparr>sp_start = 2, sp_end = 6, sp_label = ''L'', sp_line_number = 1,
            sp_left = 2, sp_right = 6, sp_value = ''2345''\<rparr>"
  let ?b = "\<lparr>sp_start = 5, sp_end = 8, sp_label = ''M'', sp_line_number = 1,
            sp_left = 5, sp_right = 8, sp_value = ''567''\<rparr>"
  have v: "collect_user_feedback ''0123456789'' ?E ?C = Inr [?a, ?b]"
    by (rule review_example)
  have len: "(0::nat) < 1 \<and> 1 < length [?a, ?b]" by simp
  from collect_user_feedback_no_overlap [of "''0123456789''" ?E ?C "[?a, ?b]"] v
  have "\<forall>i j. i < j \<and> j < length [?a, ?b] \<longrightarrow> \<not> span_clash ([?a, ?b] ! i) ([?a, ?b] ! j)"
    by blast
  with len have "\<not> span_clash ([?a, ?b] ! 0) ([?a, ?b] ! 1)" by blast
  then have nc: "\<not> span_clash ?a ?b" by simp
  have le: "length ?E \<le> length ?C" by simp
  from v len nc le show ?thesis by blast
qed

subsection \<open>Candidates of equal width\<close>







section \<open>Properties of the fixed-width extractor\<close>

lemma extract_example_name:
  "extract_spans_from_smart_config ''JOHN DOE  EXTRA''
     \<lparr>cfg_header_skip = Some 0, cfg_footer_skip = Some 0,
      cfg_fields = [\<lparr>f_label = Some ''NAME'', f_group = Some 1, f_line = Some 0,
                     f_left = Some 0, f_right = Some 8\<rparr>]\<rparr>
   = Inr [(''JOHN DOE'', ''NAME'', 0, 8)]"
  by code_simp

lemma extract_example_negative_left:
  "extract_spans_from_smart_config ''JOHN DOE  EXTRA''
     \<lparr>cfg_header_skip = Some 0, cfg_footer_skip = Some 0,
      cfg_fields = [\<lparr>f_label = Some ''NAME'', f_group = Some 1, f_line = Some 0,
                     f_left = Some (- 3), f_right = Some 100\<rparr>]\<rparr>
   = Inr [(''TRA'', ''NAME'', - 3, 0)]"
  by code_simp

lemma slice_negative_left: "py_slice ''JOHN DOE  EXTRA'' (- 3) 0 = []"
  by code_simp










lemma slice_example_name: "py_slice ''JOHN DOE  EXTRA'' 0 8 = ''JOHN DOE''"
  by code_simp

text \<open>
  Claim C6 (for every text and configuration, every emitted span has \<open>text[start:end]\<close> equal
  to its value, and \<open>start\<close>, \<open>end\<close> are the absolute offsets of the trimmed substring). The
  claim's example holds: columns 0 to 8 of \<open>"JOHN DOE  EXTRA"\<close> give \<open>("JOHN DOE", "NAME", 0, 8)\<close>.
  But a negative \<open>left\<close> is taken as a column counted from the end of the line by the slice
  and as a plain number by the offset: with \<open>left = -3\<close> and \<open>right = 100\<close> on the same line the
  extractor emits \<open>("TRA", "NAME", -3, 0)\<close>, while \<open>text[-3:0]\<close> is empty.
\<close>

theorem extract_negative_left_offsets:
  "extract_spans_from_smart_config ''JOHN DOE  EXTRA''
     \<lparr>cfg_header_skip = Some 0, cfg_footer_skip = Some 0,
      cfg_fields = [\<lparr>f_label = Some ''NAME'', f_group = Some 1, f_line = Some 0,
                     f_left = Some (- 3), f_right = Some 100\<rparr>]\<rparr>
   = Inr [(''TRA'', ''NAME'', - 3, 0)] \<and>
   py_slice ''JOHN DOE  EXTRA'' (- 3) 0 = [] \<and>
   extract_spans_from_smart_config ''JOHN DOE  EXTRA''
     \<lparr>cfg_header_skip = Some 0, cfg_footer_skip = Some 0,
      cfg_fields = [\<lparr>f_label = Some ''NAME'', f_group = Some 1, f_line = Some 0,
                     f_left = Some 0, f_right = Some 8\<rparr>]\<rparr>
   = Inr [(''JOHN DOE'', ''NAME'', 0, 8)] \<and>
   py_slice ''JOHN DOE  EXTRA'' 0 8 = ''JOHN DOE''"
  by (simp add: extract_example_negative_left slice_negative_left extract_example_name
      slice_example_name)






end
